theory Spec2Isabelle
  imports Main "HOL-Library.Word"
begin

section \<open>The store: nodes, pointers, failures\<close>

text \<open>
  The program is \<^verbatim>\<open>src/AVLTree/main.cpp\<close>: the class templates \<^verbatim>\<open>Node\<close> and
  \<^verbatim>\<open>AVLMap\<close> with its nested \<^verbatim>\<open>Iterator\<close>.

  Nodes live in a store, a list of cells; the address of a node is its index. A
  \<^verbatim>\<open>shared_ptr<Node>\<close> and a \<^verbatim>\<open>weak_ptr<Node>\<close> are both a \<open>ptr\<close>: \<open>None\<close> is
  \<^verbatim>\<open>nullptr\<close>, \<open>Some a\<close> is the node at address \<open>a\<close>. \<^verbatim>\<open>allocate_shared\<close> appends a
  cell, so a new node gets the address \<open>length h\<close>. Cells are never reclaimed: a node that
  no owning link reaches any more stays in the list, unreachable. \<^verbatim>\<open>weak_ptr::lock\<close> is
  therefore the identity.

  The field \<^verbatim>\<open>value\<close> is called \<open>val\<close> and the field \<^verbatim>\<open>height\<close> is called \<open>hgt\<close>
  (the name \<open>height\<close> is kept for the function \<^verbatim>\<open>AVLMap::height\<close>).
\<close>

type_synonym ptr = "nat option"

record ('k, 'v) node =
  key :: 'k
  val :: 'v
  left :: ptr
  right :: ptr
  parent :: ptr
  hgt :: "32 word"

type_synonym ('k, 'v) heap = "('k, 'v) node list"

text \<open>
  \<open>NullDeref\<close>: a member access through a pointer that denotes no node (undefined
  behaviour in the source). \<open>NotFound\<close> is \<^verbatim>\<open>std::runtime_error("Not found")\<close>, \<open>OutOfRange\<close>
  is \<^verbatim>\<open>std::out_of_range("Iterator out of range")\<close>.
\<close>

datatype error = NullDeref | NotFound | OutOfRange

type_synonym 'a res = "error + 'a"

text \<open>Sequencing of two steps, the first of which may fail.\<close>

definition bind_res :: "'a res \<Rightarrow> ('a \<Rightarrow> 'b res) \<Rightarrow> 'b res" where
  "bind_res m f = (case m of Inl e \<Rightarrow> Inl e | Inr x \<Rightarrow> f x)"

text \<open>\<open>deref h p f\<close>: run \<open>f\<close> on the address of the node that \<open>p\<close> denotes.\<close>

definition deref :: "('k, 'v) heap \<Rightarrow> ptr \<Rightarrow> (nat \<Rightarrow> 'a res) \<Rightarrow> 'a res" where
  "deref h p f =
     (case p of
        None \<Rightarrow> Inl NullDeref
      | Some a \<Rightarrow> if a < length h then f a else Inl NullDeref)"

text \<open>\<^verbatim>\<open>Node(key, val)\<close>: both children null, height 1, parent default-constructed.\<close>

definition Node :: "'k \<Rightarrow> 'v \<Rightarrow> ('k, 'v) node" where
  "Node k v = \<lparr>key = k, val = v, left = None, right = None, parent = None, hgt = 1\<rparr>"

section \<open>Heights and rotations\<close>

text \<open>
  \<^verbatim>\<open>height\<close> returns \<^verbatim>\<open>int\<close>: the stored \<^verbatim>\<open>uint32_t\<close> read as a signed 32-bit value.
  \<^verbatim>\<open>BFactor\<close> subtracts two such values; the difference is kept as a mathematical integer.
  \<^verbatim>\<open>FixHeight\<close> stores an \<^verbatim>\<open>int\<close> into the \<^verbatim>\<open>uint32_t\<close> field, which truncates.
\<close>

definition height :: "('k, 'v) heap \<Rightarrow> ptr \<Rightarrow> int res" where
  "height h node =
     (if node = None then Inr 0 else deref h node (\<lambda>a. Inr (sint (hgt (h ! a)))))"

definition BFactor :: "('k, 'v) heap \<Rightarrow> ptr \<Rightarrow> int res" where
  "BFactor h node =
     (if node = None then Inr 0
      else deref h node (\<lambda>a.
        bind_res (height h (right (h ! a))) (\<lambda>hr.
        bind_res (height h (left (h ! a))) (\<lambda>hl. Inr (hr - hl)))))"

definition FixHeight :: "('k, 'v) heap \<Rightarrow> ptr \<Rightarrow> ('k, 'v) heap res" where
  "FixHeight h node =
     (if node = None then Inr h
      else deref h node (\<lambda>a.
        bind_res (height h (left (h ! a))) (\<lambda>hl.
        bind_res (height h (right (h ! a))) (\<lambda>hr.
          Inr (h[a := (h ! a)\<lparr>hgt := word_of_int (1 + max hl hr)\<rparr>])))))"

text \<open>
  \<open>set_parent_of h c p\<close> is the guarded statement
  \<^verbatim>\<open>if (c != nullptr) c->parent = p;\<close>
\<close>

definition set_parent_of :: "('k, 'v) heap \<Rightarrow> ptr \<Rightarrow> ptr \<Rightarrow> ('k, 'v) heap res" where
  "set_parent_of h c p =
     (if c = None then Inr h
      else deref h c (\<lambda>ca. Inr (h[ca := (h ! ca)\<lparr>parent := p\<rparr>])))"

text \<open>
  A parameter of type \<^verbatim>\<open>shared_ptr<Node>&\<close> names a slot: \<^verbatim>\<open>root_\<close> or a child field of
  the node above. The model passes the pointer held in the slot and returns, with the
  new store, the pointer to put back; the caller writes it into the slot. In a tree no
  statement of the callee writes to that slot otherwise.
\<close>

definition RotateLeft :: "('k, 'v) heap \<Rightarrow> ptr \<Rightarrow> (ptr \<times> ('k, 'v) heap) res" where
  "RotateLeft h p =
     deref h p (\<lambda>pa.
       let q = right (h ! pa) in
       deref h q (\<lambda>qa.
         let h1 = h[pa := (h ! pa)\<lparr>right := left (h ! qa)\<rparr>] in
         bind_res (set_parent_of h1 (left (h1 ! qa)) p) (\<lambda>h2.
           let h3 = h2[qa := (h2 ! qa)\<lparr>left := p\<rparr>] in
           bind_res (FixHeight h3 p) (\<lambda>h4.
             let h5 = h4[qa := (h4 ! qa)\<lparr>parent := parent (h4 ! pa)\<rparr>];
                 h6 = h5[pa := (h5 ! pa)\<lparr>parent := q\<rparr>]
             in bind_res (FixHeight h6 q) (\<lambda>h7. Inr (q, h7))))))"

text \<open>
  In \<^verbatim>\<open>RotateRight\<close> the reference parameter is \<^verbatim>\<open>q\<close> and the local is \<^verbatim>\<open>p\<close>. The first
  \<^verbatim>\<open>FixHeight(p)\<close> runs on the node that moves up; the last \<^verbatim>\<open>FixHeight(q)\<close> runs after
  \<^verbatim>\<open>q = p\<close>, so it is again on that node.
\<close>

definition RotateRight :: "('k, 'v) heap \<Rightarrow> ptr \<Rightarrow> (ptr \<times> ('k, 'v) heap) res" where
  "RotateRight h q =
     deref h q (\<lambda>qa.
       let p = left (h ! qa) in
       deref h p (\<lambda>pa.
         let h1 = h[qa := (h ! qa)\<lparr>left := right (h ! pa)\<rparr>] in
         bind_res (set_parent_of h1 (right (h1 ! pa)) q) (\<lambda>h2.
           let h3 = h2[pa := (h2 ! pa)\<lparr>right := q\<rparr>] in
           bind_res (FixHeight h3 p) (\<lambda>h4.
             let h5 = h4[pa := (h4 ! pa)\<lparr>parent := parent (h4 ! qa)\<rparr>];
                 h6 = h5[qa := (h5 ! qa)\<lparr>parent := p\<rparr>]
             in bind_res (FixHeight h6 p) (\<lambda>h7. Inr (p, h7))))))"

definition BalanceNode :: "('k, 'v) heap \<Rightarrow> ptr \<Rightarrow> (ptr \<times> ('k, 'v) heap) res" where
  "BalanceNode h node =
     bind_res (BFactor h node) (\<lambda>bf.
       if bf = 2 then
         deref h node (\<lambda>a.
           bind_res (BFactor h (right (h ! a))) (\<lambda>bfr.
             bind_res
               (if bfr = - 1
                then bind_res (RotateRight h (right (h ! a)))
                       (\<lambda>(r, h1). Inr (h1[a := (h1 ! a)\<lparr>right := r\<rparr>]))
                else Inr h)
               (\<lambda>h2. RotateLeft h2 node)))
       else if bf = - 2 then
         deref h node (\<lambda>a.
           bind_res (BFactor h (left (h ! a))) (\<lambda>bfl.
             bind_res
               (if bfl = 1
                then bind_res (RotateLeft h (left (h ! a)))
                       (\<lambda>(l, h1). Inr (h1[a := (h1 ! a)\<lparr>left := l\<rparr>]))
                else Inr h)
               (\<lambda>h2. RotateRight h2 node)))
       else Inr (node, h))"

section \<open>Insertion\<close>

text \<open>
  The recursion of the source follows child links of the store, so it need not end on
  every store; the functions below return \<open>None\<close> when the source would not return.

  \<open>Insert_node\<close> is the private four-argument overload \<^verbatim>\<open>Insert(parent, node, key, val)\<close>;
  it returns the pointer for the slot \<^verbatim>\<open>node\<close>.
\<close>

partial_function (option) Insert_node ::
  "('k::linorder, 'v) heap \<Rightarrow> ptr \<Rightarrow> ptr \<Rightarrow> 'k \<Rightarrow> 'v \<Rightarrow> (ptr \<times> ('k, 'v) heap) res option"
where
  "Insert_node h par node k v =
     (case node of
        None \<Rightarrow> Some (Inr (Some (length h), h @ [(Node k v)\<lparr>parent := par\<rparr>]))
      | Some a \<Rightarrow>
          if \<not> a < length h then Some (Inl NullDeref)
          else
            let h1 = (if key (h ! a) = k then h[a := (h ! a)\<lparr>val := v\<rparr>] else h) in
            if key (h1 ! a) > k then
              Option.bind (Insert_node h1 node (left (h1 ! a)) k v) (\<lambda>r.
                case r of
                  Inl e \<Rightarrow> Some (Inl e)
                | Inr (c, h2) \<Rightarrow>
                    Some (bind_res (FixHeight (h2[a := (h2 ! a)\<lparr>left := c\<rparr>]) node)
                            (\<lambda>h3. BalanceNode h3 node)))
            else
              Option.bind (Insert_node h1 node (right (h1 ! a)) k v) (\<lambda>r.
                case r of
                  Inl e \<Rightarrow> Some (Inl e)
                | Inr (c, h2) \<Rightarrow>
                    Some (bind_res (FixHeight (h2[a := (h2 ! a)\<lparr>right := c\<rparr>]) node)
                            (\<lambda>h3. BalanceNode h3 node))))"


section \<open>Lookup\<close>

text \<open>
  \<open>Get_node\<close> and \<open>Contains_node\<close> are the private static overloads \<^verbatim>\<open>Get(node, key)\<close> and
  \<^verbatim>\<open>Contains(node, key)\<close>. \<^verbatim>\<open>Get\<close> returns a reference to the field \<^verbatim>\<open>value\<close> of a node:
  the model returns the address of that node.
\<close>

partial_function (option) Get_node ::
  "('k::linorder, 'v) heap \<Rightarrow> ptr \<Rightarrow> 'k \<Rightarrow> nat res option"
where
  "Get_node h node k =
     (case node of
        None \<Rightarrow> Some (Inl NotFound)
      | Some a \<Rightarrow>
          if \<not> a < length h then Some (Inl NullDeref)
          else if key (h ! a) = k then Some (Inr a)
          else if key (h ! a) > k then Get_node h (left (h ! a)) k
          else Get_node h (right (h ! a)) k)"

partial_function (option) Contains_node ::
  "('k::linorder, 'v) heap \<Rightarrow> ptr \<Rightarrow> 'k \<Rightarrow> bool res option"
where
  "Contains_node h node k =
     (case node of
        None \<Rightarrow> Some (Inr False)
      | Some a \<Rightarrow>
          if \<not> a < length h then Some (Inl NullDeref)
          else if key (h ! a) = k then Some (Inr True)
          else if key (h ! a) > k then Contains_node h (left (h ! a)) k
          else Contains_node h (right (h ! a)) k)"

partial_function (option) GetLeft :: "('k, 'v) heap \<Rightarrow> ptr \<Rightarrow> ptr res option"
where
  "GetLeft h root =
     (case root of
        None \<Rightarrow> Some (Inr None)
      | Some a \<Rightarrow>
          if \<not> a < length h then Some (Inl NullDeref)
          else if left (h ! a) = None then Some (Inr root)
          else GetLeft h (left (h ! a)))"

partial_function (option) GetRight :: "('k, 'v) heap \<Rightarrow> ptr \<Rightarrow> ptr res option"
where
  "GetRight h root =
     (case root of
        None \<Rightarrow> Some (Inr None)
      | Some a \<Rightarrow>
          if \<not> a < length h then Some (Inl NullDeref)
          else if right (h ! a) = None then Some (Inr root)
          else GetRight h (right (h ! a)))"

section \<open>Deletion\<close>

text \<open>
  \<open>x = std::move(y)\<close> on two pointer fields empties \<open>y\<close> and then stores its former
  content in \<open>x\<close> (the standard defines it as a move into a temporary followed by a swap),
  so it leaves the field unchanged when \<open>x\<close> and \<open>y\<close> are the same field.

  \<open>GetMaxLeft h node\<close> returns the returned pointer, the pointer left in the reference
  parameter \<^verbatim>\<open>result\<close>, and the store.
\<close>

partial_function (option) GetMaxLeft ::
  "('k, 'v) heap \<Rightarrow> ptr \<Rightarrow> (ptr \<times> ptr \<times> ('k, 'v) heap) res option"
where
  "GetMaxLeft h node =
     (case node of
        None \<Rightarrow> Some (Inl NullDeref)
      | Some a \<Rightarrow>
          if \<not> a < length h then Some (Inl NullDeref)
          else if right (h ! a) \<noteq> None then
            Option.bind (GetMaxLeft h (right (h ! a))) (\<lambda>r.
              case r of
                Inl e \<Rightarrow> Some (Inl e)
              | Inr (c, result, h1) \<Rightarrow>
                  let h2 = h1[a := (h1 ! a)\<lparr>right := c\<rparr>] in
                  Some (bind_res (FixHeight h2 (right (h2 ! a)))
                          (\<lambda>h3. Inr (node, result, h3))))
          else
            let to_return = left (h ! a) in
            Some (deref h to_return (\<lambda>t.
              let tmp = parent (h ! a);
                  h1 = h[a := (h ! a)\<lparr>parent := None\<rparr>];
                  h2 = h1[t := (h1 ! t)\<lparr>parent := tmp\<rparr>]
              in bind_res (FixHeight h2 node) (\<lambda>h3. Inr (to_return, node, h3)))))"

text \<open>
  \<open>Delete_node\<close> is the private overload \<^verbatim>\<open>Delete(root, key)\<close>. Every caller assigns the
  returned pointer to the slot it passed, so the returned pointer is also the content of
  that slot afterwards.
\<close>

partial_function (option) Delete_node ::
  "('k::linorder, 'v) heap \<Rightarrow> ptr \<Rightarrow> 'k \<Rightarrow> (ptr \<times> ('k, 'v) heap) res option"
where
  "Delete_node h root k =
     (case root of
        None \<Rightarrow> Some (Inr (None, h))
      | Some a \<Rightarrow>
          if \<not> a < length h then Some (Inl NullDeref)
          else if key (h ! a) = k then
            (if left (h ! a) \<noteq> None then
               Option.bind (GetMaxLeft h root) (\<lambda>r.
                 case r of
                   Inl e \<Rightarrow> Some (Inl e)
                 | Inr (c, replace, h1) \<Rightarrow>
                     Some (
                       let h2 = h1[a := (h1 ! a)\<lparr>left := c\<rparr>] in
                       deref h2 replace (\<lambda>ra.
                         let tp = parent (h2 ! a);
                             h3 = h2[a := (h2 ! a)\<lparr>parent := None\<rparr>];
                             h4 = h3[ra := (h3 ! ra)\<lparr>parent := tp\<rparr>];
                             tl = left (h4 ! a);
                             h5 = h4[a := (h4 ! a)\<lparr>left := None\<rparr>];
                             h6 = h5[ra := (h5 ! ra)\<lparr>left := tl\<rparr>];
                             tr = right (h6 ! a);
                             h7 = h6[a := (h6 ! a)\<lparr>right := None\<rparr>];
                             h8 = h7[ra := (h7 ! ra)\<lparr>right := tr\<rparr>]
                         in
                         bind_res (set_parent_of h8 (left (h8 ! ra)) replace) (\<lambda>h9.
                         bind_res (set_parent_of h9 (right (h9 ! ra)) replace) (\<lambda>h10.
                         bind_res (FixHeight h10 replace) (\<lambda>h11.
                         bind_res (FixHeight h11 replace) (\<lambda>h12.
                           BalanceNode h12 replace)))))))
             else
               let result = right (h ! a);
                   h1 = h[a := (h ! a)\<lparr>right := None\<rparr>]
               in
               Some (deref h1 result (\<lambda>ra.
                 let h2 = h1[ra := (h1 ! ra)\<lparr>parent := parent (h1 ! a)\<rparr>] in
                 bind_res (FixHeight h2 result) (\<lambda>h3. BalanceNode h3 result))))
          else if k < key (h ! a) then
            Option.bind (Delete_node h (right (h ! a)) k) (\<lambda>r.
              case r of
                Inl e \<Rightarrow> Some (Inl e)
              | Inr (c, h1) \<Rightarrow>
                  Some (bind_res (FixHeight (h1[a := (h1 ! a)\<lparr>right := c\<rparr>]) root)
                          (\<lambda>h2. BalanceNode h2 root)))
          else
            Option.bind (Delete_node h (left (h ! a)) k) (\<lambda>r.
              case r of
                Inl e \<Rightarrow> Some (Inl e)
              | Inr (c, h1) \<Rightarrow>
                  Some (bind_res (FixHeight (h1[a := (h1 ! a)\<lparr>left := c\<rparr>]) root)
                          (\<lambda>h2. BalanceNode h2 root))))"

section \<open>Structural copy\<close>

partial_function (option) MakeCopy ::
  "('k, 'v) heap \<Rightarrow> ptr \<Rightarrow> (ptr \<times> ('k, 'v) heap) res option"
where
  "MakeCopy h root =
     (case root of
        None \<Rightarrow> Some (Inr (None, h))
      | Some a \<Rightarrow>
          if \<not> a < length h then Some (Inl NullDeref)
          else
            let n = length h;
                h1 = h @ [Node (key (h ! a)) (val (h ! a))]
            in
            Option.bind (MakeCopy h1 (left (h1 ! a))) (\<lambda>r.
              case r of
                Inl e \<Rightarrow> Some (Inl e)
              | Inr (l, h2) \<Rightarrow>
                  let h3 = h2[n := (h2 ! n)\<lparr>left := l\<rparr>] in
                  Option.bind (MakeCopy h3 (right (h3 ! a))) (\<lambda>r.
                    case r of
                      Inl e \<Rightarrow> Some (Inl e)
                    | Inr (rr, h4) \<Rightarrow>
                        let h5 = h4[n := (h4 ! n)\<lparr>right := rr\<rparr>] in
                        Some (
                          bind_res (set_parent_of h5 (right (h5 ! n)) (Some n)) (\<lambda>h6.
                          bind_res (set_parent_of h6 (left (h6 ! n)) (Some n)) (\<lambda>h7.
                            Inr (Some n, h7[n := (h7 ! n)\<lparr>hgt := hgt (h7 ! a)\<rparr>])))))))"


section \<open>The map object and its public operations\<close>

text \<open>
  An \<^verbatim>\<open>AVLMap\<close> object holds \<^verbatim>\<open>root_\<close> (here \<open>root\<close>); the allocator has no state. A public
  operation takes the store and the object and returns both.
\<close>

record AVLMap =
  root :: ptr

definition AVLMap_new :: AVLMap where
  "AVLMap_new = \<lparr>root = None\<rparr>"

definition Insert ::
  "('k::linorder, 'v) heap \<Rightarrow> AVLMap \<Rightarrow> 'k \<Rightarrow> 'v \<Rightarrow> (AVLMap \<times> ('k, 'v) heap) res option"
where
  "Insert h m k v =
     map_option (map_sum id (\<lambda>(r, h'). (m\<lparr>root := r\<rparr>, h')))
       (Insert_node h None (root m) k v)"

definition Delete ::
  "('k::linorder, 'v) heap \<Rightarrow> AVLMap \<Rightarrow> 'k \<Rightarrow> (AVLMap \<times> ('k, 'v) heap) res option"
where
  "Delete h m k =
     map_option (map_sum id (\<lambda>(r, h'). (m\<lparr>root := r\<rparr>, h')))
       (Delete_node h (root m) k)"

definition Get :: "('k::linorder, 'v) heap \<Rightarrow> AVLMap \<Rightarrow> 'k \<Rightarrow> nat res option" where
  "Get h m k = Get_node h (root m) k"

definition Contains :: "('k::linorder, 'v) heap \<Rightarrow> AVLMap \<Rightarrow> 'k \<Rightarrow> bool res option" where
  "Contains h m k = Contains_node h (root m) k"

text \<open>\<^verbatim>\<open>TreeHeight\<close> converts the \<^verbatim>\<open>int\<close> to \<^verbatim>\<open>size_t\<close>, taken as 64 bits.\<close>

definition TreeHeight :: "('k, 'v) heap \<Rightarrow> AVLMap \<Rightarrow> 64 word res" where
  "TreeHeight h m = bind_res (height h (root m)) (\<lambda>x. Inr (word_of_int x))"

text \<open>The copy constructor \<^verbatim>\<open>AVLMap(const AVLMap& other)\<close>.\<close>

definition AVLMap_copy ::
  "('k, 'v) heap \<Rightarrow> AVLMap \<Rightarrow> (AVLMap \<times> ('k, 'v) heap) res option"
where
  "AVLMap_copy h other =
     map_option (map_sum id (\<lambda>(r, h'). (\<lparr>root = r\<rparr>, h'))) (MakeCopy h (root other))"

section \<open>The iterator\<close>

text \<open>
  The members \<^verbatim>\<open>node_\<close> and \<^verbatim>\<open>tree_root_\<close> are \<open>it_node\<close> and \<open>it_tree_root\<close>. The copy
  constructor copies \<^verbatim>\<open>node_\<close> only and leaves \<^verbatim>\<open>tree_root_\<close> default-constructed.

  A \<^verbatim>\<open>weak_ptr\<close> to a released node locks to null in the source and still denotes the
  cell here; the two agree on every store in which no node has been released, such as a
  store built by insertions only.
\<close>

record Iterator =
  it_node :: ptr
  it_tree_root :: ptr

definition Iterator_copy :: "Iterator \<Rightarrow> Iterator" where
  "Iterator_copy other = \<lparr>it_node = it_node other, it_tree_root = None\<rparr>"

definition it_eq :: "Iterator \<Rightarrow> Iterator \<Rightarrow> bool" where
  "it_eq x y = (it_node x = it_node y)"

definition begin_it :: "('k, 'v) heap \<Rightarrow> AVLMap \<Rightarrow> Iterator res option" where
  "begin_it h m =
     map_option (map_sum id (\<lambda>p. \<lparr>it_node = p, it_tree_root = root m\<rparr>)) (GetLeft h (root m))"

definition end_it :: "AVLMap \<Rightarrow> Iterator" where
  "end_it m = \<lparr>it_node = None, it_tree_root = root m\<rparr>"

text \<open>
  \<^verbatim>\<open>begin()\<close> and \<^verbatim>\<open>end()\<close> are \<open>begin_it\<close> and \<open>end_it\<close>; \<^verbatim>\<open>operator==\<close> is \<open>it_eq\<close>.
  \<^verbatim>\<open>operator*\<close>: the key and the address of the node holding the value.\<close>

definition it_deref :: "('k, 'v) heap \<Rightarrow> Iterator \<Rightarrow> ('k \<times> nat) res" where
  "it_deref h it = deref h (it_node it) (\<lambda>a. Inr (key (h ! a), a))"

partial_function (option) NextRight :: "('k, 'v) heap \<Rightarrow> ptr \<Rightarrow> ptr res option"
where
  "NextRight h node =
     (case node of
        None \<Rightarrow> Some (Inl NullDeref)
      | Some a \<Rightarrow>
          if \<not> a < length h then Some (Inl NullDeref)
          else if left (h ! a) = None then Some (Inr node)
          else NextRight h (left (h ! a)))"

text \<open>\<open>NextTopPlus h cur node\<close>: \<open>cur\<close> is the member \<^verbatim>\<open>node_\<close> of the iterator.\<close>

partial_function (option) NextTopPlus ::
  "('k::linorder, 'v) heap \<Rightarrow> ptr \<Rightarrow> ptr \<Rightarrow> ptr res option"
where
  "NextTopPlus h cur node =
     (case node of
        None \<Rightarrow> Some (Inr None)
      | Some a \<Rightarrow>
          if \<not> a < length h then Some (Inl NullDeref)
          else
            (case cur of
               None \<Rightarrow> Some (Inl NullDeref)
             | Some c \<Rightarrow>
                 if \<not> c < length h then Some (Inl NullDeref)
                 else if key (h ! a) > key (h ! c) then Some (Inr node)
                 else NextTopPlus h cur (parent (h ! a))))"

definition op_inc :: "('k::linorder, 'v) heap \<Rightarrow> Iterator \<Rightarrow> Iterator res option" where
  "op_inc h it =
     (case it_node it of
        None \<Rightarrow> Some (Inl OutOfRange)
      | Some a \<Rightarrow>
          if \<not> a < length h then Some (Inl NullDeref)
          else
            map_option (map_sum id (\<lambda>p. it\<lparr>it_node := p\<rparr>))
              (if right (h ! a) \<noteq> None then NextRight h (right (h ! a))
               else NextTopPlus h (it_node it) (parent (h ! a))))"

text \<open>
  \<^verbatim>\<open>operator--\<close>, \<^verbatim>\<open>NextLeft\<close> and \<^verbatim>\<open>NextTopMinus\<close> use a \<^verbatim>\<open>weak_ptr\<close> as if it were a plain
  pointer (\<^verbatim>\<open>node_ == nullptr\<close>, \<^verbatim>\<open>node_->left\<close>); they are read that way, each access
  being an access to the node the pointer denotes.
\<close>

partial_function (option) NextLeft :: "('k, 'v) heap \<Rightarrow> ptr \<Rightarrow> ptr res option"
where
  "NextLeft h node =
     (case node of
        None \<Rightarrow> Some (Inl NullDeref)
      | Some a \<Rightarrow>
          if \<not> a < length h then Some (Inl NullDeref)
          else if right (h ! a) = None then Some (Inr node)
          else NextLeft h (right (h ! a)))"

partial_function (option) NextTopMinus ::
  "('k::linorder, 'v) heap \<Rightarrow> ptr \<Rightarrow> ptr \<Rightarrow> ptr res option"
where
  "NextTopMinus h cur node =
     (case node of
        None \<Rightarrow> Some (Inr None)
      | Some a \<Rightarrow>
          if \<not> a < length h then Some (Inl NullDeref)
          else
            (case cur of
               None \<Rightarrow> Some (Inl NullDeref)
             | Some c \<Rightarrow>
                 if \<not> c < length h then Some (Inl NullDeref)
                 else if key (h ! a) < key (h ! c) then Some (Inr node)
                 else NextTopMinus h cur (parent (h ! a))))"

definition op_dec :: "('k::linorder, 'v) heap \<Rightarrow> Iterator \<Rightarrow> Iterator res option" where
  "op_dec h it =
     Option.bind
       (if it_node it = None then GetRight h (it_tree_root it) else Some (Inr (it_node it)))
       (\<lambda>r. case r of
          Inl e \<Rightarrow> Some (Inl e)
        | Inr cur \<Rightarrow>
            (case cur of
               None \<Rightarrow> Some (Inl NullDeref)
             | Some a \<Rightarrow>
                 if \<not> a < length h then Some (Inl NullDeref)
                 else
                   map_option (map_sum id (\<lambda>p. it\<lparr>it_node := p\<rparr>))
                     (if left (h ! a) \<noteq> None then NextLeft h (left (h ! a))
                      else NextTopMinus h cur (parent (h ! a)))))"

text \<open>
  The loop a client runs over the map,
  \<^verbatim>\<open>for (it = begin(); it != end(); ++it) out.push_back((*it).first);\<close>
  started at \<open>it\<close>.
\<close>

partial_function (option) forward_from ::
  "('k::linorder, 'v) heap \<Rightarrow> Iterator \<Rightarrow> 'k list res option"
where
  "forward_from h it =
     (if it_node it = None then Some (Inr [])
      else
        (case it_deref h it of
           Inl e \<Rightarrow> Some (Inl e)
         | Inr (k, a) \<Rightarrow>
             Option.bind (op_inc h it) (\<lambda>r.
               case r of
                 Inl e \<Rightarrow> Some (Inl e)
               | Inr it' \<Rightarrow>
                   Option.bind (forward_from h it') (\<lambda>r'.
                     case r' of
                       Inl e \<Rightarrow> Some (Inl e)
                     | Inr ks \<Rightarrow> Some (Inr (k # ks))))))"

definition forward_keys :: "('k::linorder, 'v) heap \<Rightarrow> AVLMap \<Rightarrow> 'k list res option" where
  "forward_keys h m =
     Option.bind (begin_it h m) (\<lambda>r.
       case r of Inl e \<Rightarrow> Some (Inl e) | Inr it \<Rightarrow> forward_from h it)"

text \<open>
  \<^verbatim>\<open>rbegin()\<close> and \<^verbatim>\<open>rend()\<close> wrap \<^verbatim>\<open>end()\<close> and \<^verbatim>\<open>begin()\<close> in a \<^verbatim>\<open>std::reverse_iterator\<close>.
  That adaptor stores a copy of the iterator it is given, compares by comparing the
  stored iterators, yields on dereference the element before the stored iterator
  (it copies the stored iterator and applies \<^verbatim>\<open>operator--\<close> to the copy), and advances by
  applying \<^verbatim>\<open>operator--\<close> to the stored iterator. \<open>reverse_from h cur stop\<close> is the loop
  \<^verbatim>\<open>for (r = rbegin(); r != rend(); ++r) out.push_back((*r).first);\<close>
  on the stored iterators.
\<close>

definition rev_deref :: "('k::linorder, 'v) heap \<Rightarrow> Iterator \<Rightarrow> ('k \<times> nat) res option" where
  "rev_deref h cur =
     map_option (\<lambda>r. bind_res r (it_deref h)) (op_dec h (Iterator_copy cur))"

partial_function (option) reverse_from ::
  "('k::linorder, 'v) heap \<Rightarrow> Iterator \<Rightarrow> Iterator \<Rightarrow> 'k list res option"
where
  "reverse_from h cur stop =
     (if it_eq cur stop then Some (Inr [])
      else
        Option.bind (rev_deref h cur) (\<lambda>r.
          case r of
            Inl e \<Rightarrow> Some (Inl e)
          | Inr (k, a) \<Rightarrow>
              Option.bind (op_dec h cur) (\<lambda>r'.
                case r' of
                  Inl e \<Rightarrow> Some (Inl e)
                | Inr cur' \<Rightarrow>
                    Option.bind (reverse_from h cur' stop) (\<lambda>r''.
                      case r'' of
                        Inl e \<Rightarrow> Some (Inl e)
                      | Inr ks \<Rightarrow> Some (Inr (k # ks))))))"

definition reverse_keys :: "('k::linorder, 'v) heap \<Rightarrow> AVLMap \<Rightarrow> 'k list res option" where
  "reverse_keys h m =
     Option.bind (begin_it h m) (\<lambda>r.
       case r of
         Inl e \<Rightarrow> Some (Inl e)
       | Inr b \<Rightarrow> reverse_from h (Iterator_copy (end_it m)) (Iterator_copy b))"


section \<open>Sequences of calls\<close>

datatype ('k, 'v) call = InsertCall 'k 'v | DeleteCall 'k

fun run_calls ::
  "('k::linorder, 'v) heap \<Rightarrow> AVLMap \<Rightarrow> ('k, 'v) call list
     \<Rightarrow> (AVLMap \<times> ('k, 'v) heap) res option"
where
  "run_calls h m [] = Some (Inr (m, h))"
| "run_calls h m (c # cs) =
     Option.bind
       (case c of InsertCall k v \<Rightarrow> Insert h m k v | DeleteCall k \<Rightarrow> Delete h m k)
       (\<lambda>r. case r of Inl e \<Rightarrow> Some (Inl e) | Inr (m', h') \<Rightarrow> run_calls h' m' cs)"

section \<open>Trees in the store\<close>

text \<open>
  \<open>is_tree h p t\<close>: following the owning links \<^verbatim>\<open>left\<close> and \<^verbatim>\<open>right\<close> from \<open>p\<close> in the store
  \<open>h\<close> gives the finite binary tree \<open>t\<close> of addresses. \<open>inorder t\<close> lists the addresses
  left to right, \<open>keys_of h t\<close> are the keys stored at them, \<open>levels t\<close> is the number of
  nodes on the longest path from the root down.
\<close>

datatype shape = Tip | Br shape nat shape

fun is_tree :: "('k, 'v) heap \<Rightarrow> ptr \<Rightarrow> shape \<Rightarrow> bool" where
  "is_tree h p Tip = (p = None)"
| "is_tree h p (Br l a r) =
     (p = Some a \<and> a < length h \<and> is_tree h (left (h ! a)) l \<and> is_tree h (right (h ! a)) r)"

fun inorder :: "shape \<Rightarrow> nat list" where
  "inorder Tip = []"
| "inorder (Br l a r) = inorder l @ a # inorder r"

fun levels :: "shape \<Rightarrow> nat" where
  "levels Tip = 0"
| "levels (Br l a r) = 1 + max (levels l) (levels r)"

definition keys_in :: "('k, 'v) heap \<Rightarrow> shape \<Rightarrow> 'k list" where
  "keys_in h t = map (\<lambda>a. key (h ! a)) (inorder t)"

definition keys_of :: "('k, 'v) heap \<Rightarrow> shape \<Rightarrow> 'k set" where
  "keys_of h t = set (keys_in h t)"

text \<open>
  \<open>bst\<close> is the search-tree order of the data model, which also makes the keys unique;
  \<open>ordered\<close> is the weaker order that allows equal keys.
\<close>

definition bst :: "('k::linorder, 'v) heap \<Rightarrow> shape \<Rightarrow> bool" where
  "bst h t = sorted_wrt (<) (keys_in h t)"

definition ordered :: "('k::linorder, 'v) heap \<Rightarrow> shape \<Rightarrow> bool" where
  "ordered h t = sorted (keys_in h t)"

text \<open>
  \<open>copy_of h t h' t'\<close>: the tree \<open>t'\<close> in \<open>h'\<close> has the shape of \<open>t\<close> in \<open>h\<close> and holds, node
  for node, the same key, value and stored height. \<open>parents_ok h q t\<close>: the parent link of
  the root of \<open>t\<close> is \<open>q\<close> and the parent link of every other node of \<open>t\<close> is the node
  above it. \<open>ext h h'\<close>: \<open>h'\<close> is \<open>h\<close> with cells added at the end.
\<close>

fun copy_of :: "('k, 'v) heap \<Rightarrow> shape \<Rightarrow> ('k, 'v) heap \<Rightarrow> shape \<Rightarrow> bool" where
  "copy_of h Tip h' Tip = True"
| "copy_of h (Br l a r) h' (Br l' a' r') =
     (key (h' ! a') = key (h ! a) \<and> val (h' ! a') = val (h ! a) \<and>
      hgt (h' ! a') = hgt (h ! a) \<and> copy_of h l h' l' \<and> copy_of h r h' r')"
| "copy_of h Tip h' (Br l' a' r') = False"
| "copy_of h (Br l a r) h' Tip = False"

fun parents_ok :: "('k, 'v) heap \<Rightarrow> ptr \<Rightarrow> shape \<Rightarrow> bool" where
  "parents_ok h q Tip = True"
| "parents_ok h q (Br l a r) =
     (parent (h ! a) = q \<and> parents_ok h (Some a) l \<and> parents_ok h (Some a) r)"

definition ext :: "('k, 'v) heap \<Rightarrow> ('k, 'v) heap \<Rightarrow> bool" where
  "ext h h' = (length h \<le> length h' \<and> (\<forall>a<length h. h' ! a = h ! a))"

definition copied ::
  "('k, 'v) heap \<Rightarrow> shape \<Rightarrow> ptr \<Rightarrow> ('k, 'v) heap \<Rightarrow> shape \<Rightarrow> bool" where
  "copied h t p' h' t' =
     (ext h h' \<and> is_tree h' p' t' \<and> distinct (inorder t') \<and>
      set (inorder t') = {length h ..< length h'} \<and>
      copy_of h t h' t' \<and> parents_ok h' None t')"

text \<open>
  Footprints. \<open>U\<close> is a set of cells that an operation must not touch. \<open>ptr_out U p\<close>: the
  pointer \<open>p\<close> does not lead into \<open>U\<close>. \<open>sealed h U\<close>: the cells of \<open>U\<close> exist, and no
  owning link of a cell outside \<open>U\<close> leads into \<open>U\<close>. \<open>keeps U h h'\<close>: from \<open>h\<close> to \<open>h'\<close> the
  store has not shrunk, the cells of \<open>U\<close> are unchanged, and \<open>h'\<close> is still sealed.
\<close>

definition ptr_out :: "nat set \<Rightarrow> ptr \<Rightarrow> bool" where
  "ptr_out U p = (case p of None \<Rightarrow> True | Some a \<Rightarrow> a \<notin> U)"

definition sealed :: "('k, 'v) heap \<Rightarrow> nat set \<Rightarrow> bool" where
  "sealed h U =
     ((\<forall>a\<in>U. a < length h) \<and>
      (\<forall>a<length h. a \<notin> U \<longrightarrow> ptr_out U (left (h ! a)) \<and> ptr_out U (right (h ! a))))"

definition keeps :: "nat set \<Rightarrow> ('k, 'v) heap \<Rightarrow> ('k, 'v) heap \<Rightarrow> bool" where
  "keeps U h h' = (length h \<le> length h' \<and> (\<forall>a\<in>U. h' ! a = h ! a) \<and> sealed h' U)"

text \<open>The recursive equations, for evaluation on concrete stores.\<close>

declare Insert_node.simps [code] Get_node.simps [code] Contains_node.simps [code]
  GetLeft.simps [code] GetRight.simps [code] GetMaxLeft.simps [code]
  Delete_node.simps [code] MakeCopy.simps [code] NextRight.simps [code]
  NextTopPlus.simps [code] NextLeft.simps [code] NextTopMinus.simps [code]
  forward_from.simps [code] reverse_from.simps [code]

section \<open>Lookup in a search tree\<close>

lemma keys_in_simps:
  "keys_in h Tip = []"
  "keys_in h (Br l a r) = keys_in h l @ key (h ! a) # keys_in h r"
  by (simp_all add: keys_in_def)

lemma ordered_Br:
  "ordered h (Br l a r) =
     (ordered h l \<and> ordered h r \<and> (\<forall>x \<in> keys_of h l. x \<le> key (h ! a)) \<and>
      (\<forall>y \<in> keys_of h r. key (h ! a) \<le> y))"
  by (auto simp: ordered_def keys_of_def keys_in_simps sorted_append dest: order_trans)

lemma bst_ordered: "bst h t \<Longrightarrow> ordered h t"
  by (simp add: bst_def ordered_def strict_sorted_iff)

lemma Contains_node_tree:
  "is_tree h p t \<Longrightarrow> ordered h t \<Longrightarrow> Contains_node h p k = Some (Inr (k \<in> keys_of h t))"
proof (induction t arbitrary: p)
  case Tip
  then show ?case
    by (simp add: Contains_node.simps keys_of_def keys_in_simps)
next
  case (Br l a r)
  from Br.prems have p: "p = Some a" "a < length h"
    and l: "is_tree h (left (h ! a)) l" and r: "is_tree h (right (h ! a)) r"
    by simp_all
  from Br.prems(2) have bl: "ordered h l" and br: "ordered h r"
    and lt: "\<forall>x \<in> keys_of h l. x \<le> key (h ! a)"
    and gt: "\<forall>y \<in> keys_of h r. key (h ! a) \<le> y"
    by (simp_all add: ordered_Br)
  have ks: "keys_of h (Br l a r) = keys_of h l \<union> {key (h ! a)} \<union> keys_of h r"
    by (auto simp: keys_of_def keys_in_simps)
  consider (eq) "key (h ! a) = k" | (less) "k < key (h ! a)" | (greater) "key (h ! a) < k"
    by (metis not_less_iff_gr_or_eq)
  then show ?case
  proof cases
    case eq
    then show ?thesis
      using p by (subst Contains_node.simps) (simp add: ks)
  next
    case less
    then have "k \<notin> keys_of h r" using gt by force
    then have "(k \<in> keys_of h (Br l a r)) = (k \<in> keys_of h l)"
      using less by (auto simp: ks)
    moreover have "key (h ! a) \<noteq> k" using less by simp
    ultimately show ?thesis
      using p less Br.IH(1) [OF l bl] by (subst Contains_node.simps) simp
  next
    case greater
    then have "k \<notin> keys_of h l" using lt by force
    then have "(k \<in> keys_of h (Br l a r)) = (k \<in> keys_of h r)"
      using greater by (auto simp: ks)
    moreover have "key (h ! a) \<noteq> k" "\<not> k < key (h ! a)" using greater by simp_all
    ultimately show ?thesis
      using p Br.IH(2) [OF r br] by (subst Contains_node.simps) simp
  qed
qed

lemma Get_node_tree:
  "is_tree h p t \<Longrightarrow> ordered h t \<Longrightarrow>
   (if k \<in> keys_of h t
    then \<exists>a \<in> set (inorder t). key (h ! a) = k \<and> Get_node h p k = Some (Inr a)
    else Get_node h p k = Some (Inl NotFound))"
proof (induction t arbitrary: p)
  case Tip
  then show ?case
    by (simp add: Get_node.simps keys_of_def keys_in_simps)
next
  case (Br l a r)
  from Br.prems have p: "p = Some a" "a < length h"
    and l: "is_tree h (left (h ! a)) l" and r: "is_tree h (right (h ! a)) r"
    by simp_all
  from Br.prems(2) have bl: "ordered h l" and br: "ordered h r"
    and lt: "\<forall>x \<in> keys_of h l. x \<le> key (h ! a)"
    and gt: "\<forall>y \<in> keys_of h r. key (h ! a) \<le> y"
    by (simp_all add: ordered_Br)
  have ks: "keys_of h (Br l a r) = keys_of h l \<union> {key (h ! a)} \<union> keys_of h r"
    by (auto simp: keys_of_def keys_in_simps)
  consider (eq) "key (h ! a) = k" | (less) "k < key (h ! a)" | (greater) "key (h ! a) < k"
    by (metis not_less_iff_gr_or_eq)
  then show ?case
  proof cases
    case eq
    then show ?thesis
      using p by (subst Get_node.simps) (simp add: ks)
  next
    case less
    then have "k \<notin> keys_of h r" using gt by force
    then have mem: "(k \<in> keys_of h (Br l a r)) = (k \<in> keys_of h l)"
      using less by (auto simp: ks)
    have "key (h ! a) \<noteq> k" using less by simp
    then have step: "Get_node h p k = Get_node h (left (h ! a)) k"
      using p less by (subst Get_node.simps) simp
    show ?thesis
      using Br.IH(1) [OF l bl] by (auto simp: mem step)
  next
    case greater
    then have "k \<notin> keys_of h l" using lt by force
    then have mem: "(k \<in> keys_of h (Br l a r)) = (k \<in> keys_of h r)"
      using greater by (auto simp: ks)
    have "key (h ! a) \<noteq> k" "\<not> k < key (h ! a)" using greater by simp_all
    then have step: "Get_node h p k = Get_node h (right (h ! a)) k"
      using p by (subst Get_node.simps) simp
    show ?thesis
      using Br.IH(2) [OF r br] by (auto simp: mem step)
  qed
qed

text \<open>
  C8. For a map whose nodes form a tree with the keys in ascending order from left to
  right (every tree in search-tree order is one), \<open>Contains\<close> returns (it neither fails
  nor runs forever) and its answer is whether the key is stored; \<open>Get\<close> raises \<open>NotFound\<close>
  exactly when the key is not stored, and otherwise returns a reference into a node of
  the tree that holds the key.
\<close>

theorem Get_Contains_correct:
  assumes "is_tree h (root m) t" and "ordered h t"
  shows "Contains h m k = Some (Inr (k \<in> keys_of h t)) \<and>
         (Get h m k = Some (Inl NotFound)) = (k \<notin> keys_of h t) \<and>
         (k \<in> keys_of h t \<longrightarrow>
            (\<exists>a \<in> set (inorder t). key (h ! a) = k \<and> Get h m k = Some (Inr a)))"
proof -
  have c: "Contains h m k = Some (Inr (k \<in> keys_of h t))"
    using Contains_node_tree [OF assms] by (simp add: Contains_def)
  have g: "if k \<in> keys_of h t
           then \<exists>a \<in> set (inorder t). key (h ! a) = k \<and> Get h m k = Some (Inr a)
           else Get h m k = Some (Inl NotFound)"
    using Get_node_tree [OF assms, of k] by (simp add: Get_def)
  from c g show ?thesis
    by (cases "k \<in> keys_of h t") auto
qed

theorem Get_Contains_correct_witness:
  "(let h = [\<lparr>key = 2::int, val = 20::int, left = Some 1, right = Some 2, parent = None, hgt = 2\<rparr>,
             \<lparr>key = 1, val = 10, left = None, right = None, parent = Some 0, hgt = 1\<rparr>,
             \<lparr>key = 3, val = 30, left = None, right = None, parent = Some 0, hgt = 1\<rparr>];
        m = \<lparr>root = Some 0\<rparr>;
        t = Br (Br Tip 1 Tip) 0 (Br Tip 2 Tip)
    in is_tree h (root m) t \<and> bst h t \<and> ordered h t \<and>
       Contains h m 3 = Some (Inr True) \<and>
       Contains h m 5 = Some (Inr False) \<and>
       Get h m 3 \<noteq> Some (Inl NotFound) \<and>
       Get h m 5 = Some (Inl NotFound))"
proof -
  let ?h = "[\<lparr>key = 2::int, val = 20::int, left = Some 1, right = Some 2, parent = None, hgt = 2\<rparr>,
             \<lparr>key = 1, val = 10, left = None, right = None, parent = Some 0, hgt = 1\<rparr>,
             \<lparr>key = 3, val = 30, left = None, right = None, parent = Some 0, hgt = 1\<rparr>]"
  let ?t = "Br (Br Tip 1 Tip) 0 (Br Tip 2 Tip)"
  have t: "is_tree ?h (root \<lparr>root = Some 0\<rparr>) ?t"
    by simp
  have b: "bst ?h ?t"
    by (simp add: bst_def keys_in_def)
  have k: "(3::int) \<in> keys_of ?h ?t" "(5::int) \<notin> keys_of ?h ?t"
    by (simp_all add: keys_of_def keys_in_def)
  from Get_Contains_correct [OF t bst_ordered [OF b], of 3]
    Get_Contains_correct [OF t bst_ordered [OF b], of 5] k t b bst_ordered [OF b]
  show ?thesis
    by (simp add: Let_def)
qed

text \<open>
  C10. A map made by the default constructor, in any store: \<open>begin()\<close> returns an
  iterator equal to \<open>end()\<close>, \<open>TreeHeight()\<close> is 0, and \<open>Contains\<close> is false for every key.
\<close>

theorem empty_map:
  "(\<exists>b. begin_it h AVLMap_new = Some (Inr b) \<and> it_eq b (end_it AVLMap_new)) \<and>
   TreeHeight h AVLMap_new = Inr 0 \<and>
   Contains h AVLMap_new k = Some (Inr False)"
  by (simp add: begin_it_def end_it_def it_eq_def AVLMap_new_def GetLeft.simps
      TreeHeight_def height_def bind_res_def Contains_def Contains_node.simps)


section \<open>The structural copy\<close>

lemma ext_nth: "ext h h' \<Longrightarrow> a < length h \<Longrightarrow> h' ! a = h ! a"
  by (simp add: ext_def)

lemma ext_refl: "ext h h" by (simp add: ext_def)

lemma ext_trans: "ext h g \<Longrightarrow> ext g k \<Longrightarrow> ext h k"
  by (auto simp: ext_def)

lemma ext_upd: "ext h g \<Longrightarrow> length h \<le> c \<Longrightarrow> ext h (g[c := x])"
  by (auto simp: ext_def)

lemma ext_take: "ext h h' \<Longrightarrow> take (length h) h' = h"
  by (rule nth_equalityI) (auto simp: ext_def)

lemma is_tree_bound: "is_tree h p t \<Longrightarrow> a \<in> set (inorder t) \<Longrightarrow> a < length h"
  by (induction t arbitrary: p) auto

lemma is_tree_cong:
  "is_tree h p t \<Longrightarrow>
   (\<And>a. a \<in> set (inorder t) \<Longrightarrow> a < length h \<Longrightarrow>
      a < length h' \<and> left (h' ! a) = left (h ! a) \<and> right (h' ! a) = right (h ! a)) \<Longrightarrow>
   is_tree h' p t"
  by (induction t arbitrary: p) auto

lemma is_tree_ext:
  assumes "is_tree h p t" and "ext h h'"
  shows "is_tree h' p t"
  using assms(1) by (rule is_tree_cong) (use assms(2) in \<open>auto simp: ext_def\<close>)

lemma copy_of_cong:
  "copy_of h t h' t' \<Longrightarrow>
   (\<And>a. a \<in> set (inorder t) \<Longrightarrow>
      key (g ! a) = key (h ! a) \<and> val (g ! a) = val (h ! a) \<and> hgt (g ! a) = hgt (h ! a)) \<Longrightarrow>
   (\<And>a. a \<in> set (inorder t') \<Longrightarrow>
      key (g' ! a) = key (h' ! a) \<and> val (g' ! a) = val (h' ! a) \<and> hgt (g' ! a) = hgt (h' ! a)) \<Longrightarrow>
   copy_of g t g' t'"
  by (induction h t h' t' rule: copy_of.induct) auto

lemma parents_ok_cong:
  "parents_ok h q t \<Longrightarrow>
   (\<And>a. a \<in> set (inorder t) \<Longrightarrow> parent (h' ! a) = parent (h ! a)) \<Longrightarrow>
   parents_ok h' q t"
  by (induction t arbitrary: q) auto


lemma nth_upd: "h[c := x] ! a = (if c = a \<and> c < length h then x else h ! a)"
  by (cases "c < length h") (auto simp: nth_list_update list_update_beyond)

lemma set_parent_of_tree:
  "is_tree h p t \<Longrightarrow>
   set_parent_of h p q = Inr (case p of None \<Rightarrow> h | Some c \<Rightarrow> h[c := (h ! c)\<lparr>parent := q\<rparr>])"
  by (cases t) (auto simp: set_parent_of_def deref_def)

lemma is_tree_root:
  "is_tree h p t \<Longrightarrow> p = Some c \<Longrightarrow> c \<in> set (inorder t)"
  by (cases t) auto

lemma parents_ok_reroot:
  assumes "is_tree h p t" and "distinct (inorder t)" and "parents_ok h q t"
    and eq: "\<And>x. x \<in> set (inorder t) \<Longrightarrow>
               parent (h' ! x) = (if p = Some x then q' else parent (h ! x))"
  shows "parents_ok h' q' t"
proof (cases t)
  case Tip
  then show ?thesis by simp
next
  case (Br l a r)
  with assms(1-3) have p: "p = Some a" and nl: "a \<notin> set (inorder l)"
    and nr: "a \<notin> set (inorder r)"
    and pl: "parents_ok h (Some a) l" and pr: "parents_ok h (Some a) r"
    by auto
  have "parents_ok h' (Some a) l"
    using pl by (rule parents_ok_cong) (use nl eq p Br in auto)
  moreover have "parents_ok h' (Some a) r"
    using pr by (rule parents_ok_cong) (use nr eq p Br in auto)
  moreover have "parent (h' ! a) = q'"
    using eq [of a] p Br by simp
  ultimately show ?thesis
    using Br by simp
qed

lemma MakeCopy_Some:
  assumes "a < length h"
    and "h1 = h @ [Node (key (h ! a)) (val (h ! a))]"
    and "MakeCopy h1 (left (h1 ! a)) = Some (Inr (l, h2))"
    and "h3 = h2[length h := (h2 ! length h)\<lparr>left := l\<rparr>]"
    and "MakeCopy h3 (right (h3 ! a)) = Some (Inr (rr, h4))"
    and "h5 = h4[length h := (h4 ! length h)\<lparr>right := rr\<rparr>]"
    and "set_parent_of h5 (right (h5 ! length h)) (Some (length h)) = Inr h6"
    and "set_parent_of h6 (left (h6 ! length h)) (Some (length h)) = Inr h7"
  shows "MakeCopy h (Some a) =
           Some (Inr (Some (length h), h7[length h := (h7 ! length h)\<lparr>hgt := hgt (h7 ! a)\<rparr>]))"
  using assms by (subst MakeCopy.simps) (simp add: Let_def bind_res_def)

lemma MakeCopy_deep:
  "is_tree h p t \<Longrightarrow> \<exists>p' h' t'. MakeCopy h p = Some (Inr (p', h')) \<and> copied h t p' h' t'"
proof (induction t arbitrary: h p)
  case Tip
  then show ?case
    by (simp add: MakeCopy.simps copied_def ext_refl exI [of _ Tip])
next
  case (Br l a r)
  from Br.prems have p: "p = Some a" and a: "a < length h"
    and tl: "is_tree h (left (h ! a)) l" and tr: "is_tree h (right (h ! a)) r"
    by simp_all
  define n where "n = length h"
  define h1 where "h1 = h @ [Node (key (h ! a)) (val (h ! a))]"
  have e1: "ext h h1"
    by (simp add: ext_def h1_def nth_append)
  have a1: "h1 ! a = h ! a"
    using a by (simp add: h1_def nth_append)
  have n1: "h1 ! n = Node (key (h ! a)) (val (h ! a))" and len1: "length h1 = Suc n"
    by (simp_all add: h1_def n_def)
  from Br.IH(1) [OF is_tree_ext [OF tl e1]]
  obtain l' h2 tl' where c1: "MakeCopy h1 (left (h ! a)) = Some (Inr (l', h2))"
    and k1: "copied h1 l l' h2 tl'"
    by blast
  from k1 have e2: "ext h1 h2" and t2: "is_tree h2 l' tl'" and d2: "distinct (inorder tl')"
    and s2: "set (inorder tl') = {Suc n ..< length h2}"
    and co2: "copy_of h1 l h2 tl'" and po2: "parents_ok h2 None tl'"
    by (simp_all add: copied_def len1)
  have len2: "Suc n \<le> length h2"
    using e2 by (simp add: ext_def len1)
  have n2: "h2 ! n = Node (key (h ! a)) (val (h ! a))"
    using ext_nth [OF e2, of n] n1 len1 by simp
  define h3 where "h3 = h2[n := (h2 ! n)\<lparr>left := l'\<rparr>]"
  have e3: "ext h h3"
    unfolding h3_def by (rule ext_upd [OF ext_trans [OF e1 e2]]) (simp add: n_def)
  have a3: "h3 ! a = h ! a"
    using ext_nth [OF e3 a] .
  from Br.IH(2) [OF is_tree_ext [OF tr e3]]
  obtain rr h4 tr' where c2: "MakeCopy h3 (right (h ! a)) = Some (Inr (rr, h4))"
    and k2: "copied h3 r rr h4 tr'"
    by blast
  from k2 have e4: "ext h3 h4" and t4: "is_tree h4 rr tr'" and d4: "distinct (inorder tr')"
    and s4: "set (inorder tr') = {length h2 ..< length h4}"
    and co4: "copy_of h3 r h4 tr'" and po4: "parents_ok h4 None tr'"
    by (simp_all add: copied_def h3_def)
  have len4: "length h2 \<le> length h4"
    using e4 by (simp add: ext_def h3_def)
  have low4: "\<And>x. x < length h2 \<Longrightarrow> h4 ! x = h3 ! x"
    using ext_nth [OF e4] by (simp add: h3_def)
  define h5 where "h5 = h4[n := (h4 ! n)\<lparr>right := rr\<rparr>]"
  define h6 where "h6 = (case rr of None \<Rightarrow> h5 | Some c \<Rightarrow> h5[c := (h5 ! c)\<lparr>parent := Some n\<rparr>])"
  define h7 where "h7 = (case l' of None \<Rightarrow> h6 | Some c \<Rightarrow> h6[c := (h6 ! c)\<lparr>parent := Some n\<rparr>])"
  define hF where "hF = h7[n := (h7 ! n)\<lparr>hgt := hgt (h7 ! a)\<rparr>]"
  have lens: "length h3 = length h2" "length h5 = length h4" "length h6 = length h4"
    "length h7 = length h4" "length hF = length h4"
    by (simp_all add: h3_def h5_def h6_def h7_def hF_def split: option.splits)
  have rr_in: "\<And>c. rr = Some c \<Longrightarrow> length h2 \<le> c \<and> c < length h4"
    using is_tree_root [OF t4] s4 by auto
  have l_in: "\<And>c. l' = Some c \<Longrightarrow> Suc n \<le> c \<and> c < length h2"
    using is_tree_root [OF t2] s2 by auto
  have an: "a < n" using a by (simp add: n_def)
  have nlt: "n < length h2" "n < length h4"
    using len2 len4 by simp_all
  have h3_nth: "\<And>x. h3 ! x = (if x = n then (h2 ! n)\<lparr>left := l'\<rparr> else h2 ! x)"
    using nlt by (auto simp: h3_def nth_upd)
  have h5_nth: "\<And>x. h5 ! x = (if x = n then (h4 ! n)\<lparr>right := rr\<rparr> else h4 ! x)"
    using nlt by (auto simp: h5_def nth_upd)
  have h6_nth: "\<And>x. h6 ! x = (if rr = Some x then (h5 ! x)\<lparr>parent := Some n\<rparr> else h5 ! x)"
    using rr_in lens by (auto simp: h6_def nth_upd split: option.splits)
  have h7_nth: "\<And>x. h7 ! x = (if l' = Some x then (h6 ! x)\<lparr>parent := Some n\<rparr> else h6 ! x)"
    using l_in len4 lens by (auto simp: h7_def nth_upd split: option.splits)
  have hF_nth: "\<And>x. hF ! x = (if x = n then (h7 ! n)\<lparr>hgt := hgt (h7 ! a)\<rparr> else h7 ! x)"
    using nlt lens by (auto simp: hF_def nth_upd)
  have not_n: "l' \<noteq> Some n" "rr \<noteq> Some n"
    using l_in rr_in len2 by fastforce+
  have cell_low: "hF ! x = h ! x" if "x < n" for x
  proof -
    have "l' \<noteq> Some x" "rr \<noteq> Some x" "x \<noteq> n" "x < length h2" "x < length h1"
      using that l_in rr_in len2 len1 by fastforce+
    then show ?thesis
      using ext_nth [OF e2, of x] ext_nth [OF e1, of x] that
      by (simp add: hF_nth h7_nth h6_nth h5_nth low4 h3_nth n_def)
  qed
  have cell_n: "hF ! n = \<lparr>key = key (h ! a), val = val (h ! a), left = l', right = rr,
                           parent = None, hgt = hgt (h ! a)\<rparr>"
  proof -
    have "l' \<noteq> Some a" "rr \<noteq> Some a" "a \<noteq> n" "a < length h2"
      using an l_in rr_in len2 by fastforce+
    then have "h7 ! a = h ! a"
      using ext_nth [OF e2, of a] a1 len1 an
      by (simp add: h7_nth h6_nth h5_nth low4 h3_nth)
    then show ?thesis
      using not_n nlt by (simp add: hF_nth h7_nth h6_nth h5_nth low4 h3_nth n2 Node_def)
  qed
  have cell_l: "hF ! x = (if l' = Some x then (h2 ! x)\<lparr>parent := Some n\<rparr> else h2 ! x)"
    if "x \<in> set (inorder tl')" for x
  proof -
    have "rr \<noteq> Some x" "x \<noteq> n" "x < length h2"
      using that s2 rr_in by fastforce+
    then show ?thesis
      by (simp add: hF_nth h7_nth h6_nth h5_nth low4 h3_nth)
  qed
  have cell_r: "hF ! x = (if rr = Some x then (h4 ! x)\<lparr>parent := Some n\<rparr> else h4 ! x)"
    if "x \<in> set (inorder tr')" for x
  proof -
    have "l' \<noteq> Some x" "x \<noteq> n"
      using that s4 l_in len2 by fastforce+
    then show ?thesis
      by (simp add: hF_nth h7_nth h6_nth h5_nth)
  qed
  have t5: "is_tree h5 rr tr'"
    using t4 by (rule is_tree_cong) (use s4 len2 in \<open>auto simp: h5_nth lens\<close>)
  have t6: "is_tree h6 l' tl'"
    using t2
  proof (rule is_tree_cong)
    fix x assume x: "x \<in> set (inorder tl')" "x < length h2"
    then have "rr \<noteq> Some x" "x \<noteq> n"
      using s2 rr_in by fastforce+
    then show "x < length h6 \<and> left (h6 ! x) = left (h2 ! x) \<and> right (h6 ! x) = right (h2 ! x)"
      using x len4 by (simp add: h6_nth h5_nth low4 h3_nth lens)
  qed
  have r5: "right (h5 ! n) = rr"
    by (simp add: h5_nth)
  have l6: "left (h6 ! n) = l'"
    using not_n nlt by (simp add: h6_nth h5_nth low4 h3_nth)
  have run: "MakeCopy h p = Some (Inr (Some n, hF))"
    unfolding p n_def hF_def [unfolded n_def]
  proof (rule MakeCopy_Some [where ?h1.0 = h1 and l = l' and ?h2.0 = h2 and ?h3.0 = h3
        and rr = rr and ?h4.0 = h4 and ?h5.0 = h5 and ?h6.0 = h6])
    show "a < length h" by (rule a)
    show "h1 = h @ [Node (key (h ! a)) (val (h ! a))]" by (rule h1_def)
    show "MakeCopy h1 (left (h1 ! a)) = Some (Inr (l', h2))" using c1 a1 by simp
    show "h3 = h2[length h := (h2 ! length h)\<lparr>left := l'\<rparr>]"
      by (simp add: h3_def n_def)
    show "MakeCopy h3 (right (h3 ! a)) = Some (Inr (rr, h4))" using c2 a3 by simp
    show "h5 = h4[length h := (h4 ! length h)\<lparr>right := rr\<rparr>]"
      by (simp add: h5_def n_def)
    show "set_parent_of h5 (right (h5 ! length h)) (Some (length h)) = Inr h6"
      using r5 set_parent_of_tree [OF t5, of "Some n"] by (simp add: h6_def n_def)
    show "set_parent_of h6 (left (h6 ! length h)) (Some (length h)) = Inr h7"
      using l6 set_parent_of_tree [OF t6, of "Some n"] by (simp add: h7_def n_def)
  qed
  have eF: "ext h hF"
    using cell_low len2 len4 by (simp add: ext_def lens n_def)
  have tF: "is_tree hF (Some n) (Br tl' n tr')"
  proof -
    have "is_tree hF l' tl'"
      using t2 by (rule is_tree_cong) (use len4 in \<open>auto simp: cell_l lens\<close>)
    moreover have "is_tree hF rr tr'"
      using t4 by (rule is_tree_cong) (auto simp: cell_r lens)
    ultimately show ?thesis
      using nlt by (simp add: cell_n lens)
  qed
  have dF: "distinct (inorder (Br tl' n tr'))"
    using d2 d4 s2 s4 len2 by auto
  have sF: "set (inorder (Br tl' n tr')) = {length h ..< length hF}"
    using s2 s4 len2 len4 by (auto simp: lens n_def)
  have cF: "copy_of h (Br l a r) hF (Br tl' n tr')"
  proof -
    have "copy_of h l hF tl'"
      using co2
    proof (rule copy_of_cong)
      fix x assume "x \<in> set (inorder l)"
      then have "x < length h" using is_tree_bound [OF tl] by simp
      then show "key (h ! x) = key (h1 ! x) \<and> val (h ! x) = val (h1 ! x) \<and>
                 hgt (h ! x) = hgt (h1 ! x)"
        using ext_nth [OF e1] by simp
    next
      fix x assume "x \<in> set (inorder tl')"
      then show "key (hF ! x) = key (h2 ! x) \<and> val (hF ! x) = val (h2 ! x) \<and>
                 hgt (hF ! x) = hgt (h2 ! x)"
        by (simp add: cell_l)
    qed
    moreover have "copy_of h r hF tr'"
      using co4
    proof (rule copy_of_cong)
      fix x assume "x \<in> set (inorder r)"
      then have "x < length h" using is_tree_bound [OF tr] by simp
      then show "key (h ! x) = key (h3 ! x) \<and> val (h ! x) = val (h3 ! x) \<and>
                 hgt (h ! x) = hgt (h3 ! x)"
        using ext_nth [OF e3] by simp
    next
      fix x assume "x \<in> set (inorder tr')"
      then show "key (hF ! x) = key (h4 ! x) \<and> val (hF ! x) = val (h4 ! x) \<and>
                 hgt (hF ! x) = hgt (h4 ! x)"
        by (simp add: cell_r)
    qed
    ultimately show ?thesis
      by (simp add: cell_n)
  qed
  have pF: "parents_ok hF None (Br tl' n tr')"
  proof -
    have "parents_ok hF (Some n) tl'"
      using t2 d2 po2 by (rule parents_ok_reroot) (simp add: cell_l)
    moreover have "parents_ok hF (Some n) tr'"
      using t4 d4 po4 by (rule parents_ok_reroot) (simp add: cell_r)
    ultimately show ?thesis
      by (simp add: cell_n)
  qed
  from run eF tF dF sF cF pF show ?case
    unfolding copied_def by blast
qed

section \<open>What an operation can write\<close>

lemma bind_res_Inr: "(bind_res m f = Inr y) = (\<exists>x. m = Inr x \<and> f x = Inr y)"
  by (cases m) (auto simp: bind_res_def)

lemma deref_Inr: "(deref h p f = Inr y) = (\<exists>a. p = Some a \<and> a < length h \<and> f a = Inr y)"
  by (auto simp: deref_def split: option.splits)

lemma keeps_refl: "sealed h U \<Longrightarrow> keeps U h h"
  by (simp add: keeps_def)

lemma keeps_sealed: "keeps U h g \<Longrightarrow> sealed g U"
  by (simp add: keeps_def)

lemma keeps_trans: "keeps U h g \<Longrightarrow> keeps U g k \<Longrightarrow> keeps U h k"
  by (auto simp: keeps_def)

lemma keeps_left: "keeps U h g \<Longrightarrow> a \<notin> U \<Longrightarrow> a < length g \<Longrightarrow> ptr_out U (left (g ! a))"
  by (simp add: keeps_def sealed_def)

lemma keeps_right: "keeps U h g \<Longrightarrow> a \<notin> U \<Longrightarrow> a < length g \<Longrightarrow> ptr_out U (right (g ! a))"
  by (simp add: keeps_def sealed_def)

lemma keeps_upd:
  assumes "keeps U h g" and "a \<notin> U" and "a < length g"
    and "ptr_out U (left x)" and "ptr_out U (right x)"
  shows "keeps U h (g[a := x])"
  using assms unfolding keeps_def sealed_def
  by (auto simp: nth_list_update)

lemma keeps_app:
  assumes "keeps U h g" and "ptr_out U (left x)" and "ptr_out U (right x)"
  shows "keeps U h (g @ [x])"
  using assms unfolding keeps_def sealed_def
  by (auto simp: nth_append less_Suc_eq)

lemma ptr_out_Some: "ptr_out U (Some a) = (a \<notin> U)"
  by (simp add: ptr_out_def)

lemma ptr_out_None: "ptr_out U None"
  by (simp add: ptr_out_def)

lemma keeps_FixHeight:
  assumes "keeps U h g" and "ptr_out U p" and "FixHeight g p = Inr g'"
  shows "keeps U h g' \<and> length g' = length g"
proof (cases p)
  case None
  with assms show ?thesis by (simp add: FixHeight_def)
next
  case (Some a)
  with assms(3) obtain w where a: "a < length g" and g': "g' = g[a := (g ! a)\<lparr>hgt := w\<rparr>]"
    by (auto simp: FixHeight_def bind_res_Inr deref_Inr)
  have "a \<notin> U" using assms(2) Some by (simp add: ptr_out_def)
  then show ?thesis
    unfolding g'
    using keeps_upd [OF assms(1) _ a, of "(g ! a)\<lparr>hgt := w\<rparr>"]
      keeps_left [OF assms(1) _ a] keeps_right [OF assms(1) _ a]
    by simp
qed

lemma keeps_set_parent_of:
  assumes "keeps U h g" and "ptr_out U c" and "set_parent_of g c q = Inr g'"
  shows "keeps U h g' \<and> length g' = length g"
proof (cases c)
  case None
  with assms show ?thesis by (simp add: set_parent_of_def)
next
  case (Some a)
  with assms(3) have a: "a < length g" and g': "g' = g[a := (g ! a)\<lparr>parent := q\<rparr>]"
    by (auto simp: set_parent_of_def deref_Inr)
  have "a \<notin> U" using assms(2) Some by (simp add: ptr_out_def)
  then show ?thesis
    unfolding g'
    using keeps_upd [OF assms(1) _ a, of "(g ! a)\<lparr>parent := q\<rparr>"]
      keeps_left [OF assms(1) _ a] keeps_right [OF assms(1) _ a]
    by simp
qed

lemma RotateLeft_E:
  assumes "RotateLeft h p = Inr (q', h')"
  obtains pa qa h1 h2 h3 h4 h5 h6 where
    "p = Some pa" "pa < length h" "right (h ! pa) = Some qa" "qa < length h"
    "h1 = h[pa := (h ! pa)\<lparr>right := left (h ! qa)\<rparr>]"
    "set_parent_of h1 (left (h1 ! qa)) p = Inr h2"
    "h3 = h2[qa := (h2 ! qa)\<lparr>left := p\<rparr>]"
    "FixHeight h3 p = Inr h4"
    "h5 = h4[qa := (h4 ! qa)\<lparr>parent := parent (h4 ! pa)\<rparr>]"
    "h6 = h5[pa := (h5 ! pa)\<lparr>parent := Some qa\<rparr>]"
    "FixHeight h6 (Some qa) = Inr h'" "q' = Some qa"
  using assms unfolding RotateLeft_def Let_def
  by (auto simp: bind_res_Inr deref_Inr)

lemma keeps_RotateLeft:
  assumes k: "keeps U h g" and p: "ptr_out U p" and r: "RotateLeft g p = Inr (q', g')"
  shows "keeps U h g' \<and> ptr_out U q' \<and> length g' = length g"
proof -
  from r obtain pa qa h1 h2 h3 h4 h5 h6 where
    pa: "p = Some pa" "pa < length g" and qa: "right (g ! pa) = Some qa" "qa < length g"
    and h1: "h1 = g[pa := (g ! pa)\<lparr>right := left (g ! qa)\<rparr>]"
    and h2: "set_parent_of h1 (left (h1 ! qa)) p = Inr h2"
    and h3: "h3 = h2[qa := (h2 ! qa)\<lparr>left := p\<rparr>]"
    and h4: "FixHeight h3 p = Inr h4"
    and h5: "h5 = h4[qa := (h4 ! qa)\<lparr>parent := parent (h4 ! pa)\<rparr>]"
    and h6: "h6 = h5[pa := (h5 ! pa)\<lparr>parent := Some qa\<rparr>]"
    and g': "FixHeight h6 (Some qa) = Inr g'" and q': "q' = Some qa"
    by (rule RotateLeft_E)
  have pu: "pa \<notin> U" using p pa by (simp add: ptr_out_def)
  have qu: "qa \<notin> U" using keeps_right [OF k pu pa(2)] qa by (simp add: ptr_out_def)
  have k1: "keeps U h h1" and l1: "length h1 = length g"
    unfolding h1 using keeps_upd [OF k pu pa(2), of "(g ! pa)\<lparr>right := left (g ! qa)\<rparr>"]
      keeps_left [OF k pu pa(2)] keeps_left [OF k qu qa(2)] by simp_all
  have k2: "keeps U h h2" and l2: "length h2 = length g"
    using keeps_set_parent_of [OF k1 _ h2] keeps_left [OF k1 qu] qa(2) l1 by simp_all
  have k3: "keeps U h h3" and l3: "length h3 = length g"
    unfolding h3 using keeps_upd [OF k2 qu, of "(h2 ! qa)\<lparr>left := p\<rparr>"]
      keeps_right [OF k2 qu] qa(2) l2 p by simp_all
  have k4: "keeps U h h4" and l4: "length h4 = length g"
    using keeps_FixHeight [OF k3 p h4] l3 by simp_all
  have k5: "keeps U h h5" and l5: "length h5 = length g"
    unfolding h5 using keeps_upd [OF k4 qu, of "(h4 ! qa)\<lparr>parent := parent (h4 ! pa)\<rparr>"]
      keeps_left [OF k4 qu] keeps_right [OF k4 qu] qa(2) l4 by simp_all
  have k6: "keeps U h h6" and l6: "length h6 = length g"
    unfolding h6 using keeps_upd [OF k5 pu, of "(h5 ! pa)\<lparr>parent := Some qa\<rparr>"]
      keeps_left [OF k5 pu] keeps_right [OF k5 pu] pa(2) l5 by simp_all
  have "keeps U h g'" "length g' = length g"
    using keeps_FixHeight [OF k6 _ g'] qu l6 by (simp_all add: ptr_out_def)
  then show ?thesis
    using qu q' by (simp add: ptr_out_def)
qed


lemma RotateRight_E:
  assumes "RotateRight h q = Inr (p', h')"
  obtains qa pa h1 h2 h3 h4 h5 h6 where
    "q = Some qa" "qa < length h" "left (h ! qa) = Some pa" "pa < length h"
    "h1 = h[qa := (h ! qa)\<lparr>left := right (h ! pa)\<rparr>]"
    "set_parent_of h1 (right (h1 ! pa)) q = Inr h2"
    "h3 = h2[pa := (h2 ! pa)\<lparr>right := q\<rparr>]"
    "FixHeight h3 (Some pa) = Inr h4"
    "h5 = h4[pa := (h4 ! pa)\<lparr>parent := parent (h4 ! qa)\<rparr>]"
    "h6 = h5[qa := (h5 ! qa)\<lparr>parent := Some pa\<rparr>]"
    "FixHeight h6 (Some pa) = Inr h'" "p' = Some pa"
  using assms unfolding RotateRight_def Let_def
  by (auto simp: bind_res_Inr deref_Inr)

lemma keeps_RotateRight:
  assumes k: "keeps U h g" and q: "ptr_out U q" and r: "RotateRight g q = Inr (p', g')"
  shows "keeps U h g' \<and> ptr_out U p' \<and> length g' = length g"
proof -
  from r obtain qa pa h1 h2 h3 h4 h5 h6 where
    qa: "q = Some qa" "qa < length g" and pa: "left (g ! qa) = Some pa" "pa < length g"
    and h1: "h1 = g[qa := (g ! qa)\<lparr>left := right (g ! pa)\<rparr>]"
    and h2: "set_parent_of h1 (right (h1 ! pa)) q = Inr h2"
    and h3: "h3 = h2[pa := (h2 ! pa)\<lparr>right := q\<rparr>]"
    and h4: "FixHeight h3 (Some pa) = Inr h4"
    and h5: "h5 = h4[pa := (h4 ! pa)\<lparr>parent := parent (h4 ! qa)\<rparr>]"
    and h6: "h6 = h5[qa := (h5 ! qa)\<lparr>parent := Some pa\<rparr>]"
    and g': "FixHeight h6 (Some pa) = Inr g'" and p': "p' = Some pa"
    by (rule RotateRight_E)
  have qu: "qa \<notin> U" using q qa by (simp add: ptr_out_def)
  have pu: "pa \<notin> U" using keeps_left [OF k qu qa(2)] pa by (simp add: ptr_out_def)
  have pp: "ptr_out U (Some pa)" using pu by (simp add: ptr_out_def)
  have k1: "keeps U h h1" and l1: "length h1 = length g"
    unfolding h1 using keeps_upd [OF k qu qa(2), of "(g ! qa)\<lparr>left := right (g ! pa)\<rparr>"]
      keeps_right [OF k qu qa(2)] keeps_right [OF k pu pa(2)] by simp_all
  have k2: "keeps U h h2" and l2: "length h2 = length g"
    using keeps_set_parent_of [OF k1 _ h2] keeps_right [OF k1 pu] pa(2) l1 by simp_all
  have k3: "keeps U h h3" and l3: "length h3 = length g"
    unfolding h3 using keeps_upd [OF k2 pu, of "(h2 ! pa)\<lparr>right := q\<rparr>"]
      keeps_left [OF k2 pu] pa(2) l2 q by simp_all
  have k4: "keeps U h h4" and l4: "length h4 = length g"
    using keeps_FixHeight [OF k3 pp h4] l3 by simp_all
  have k5: "keeps U h h5" and l5: "length h5 = length g"
    unfolding h5 using keeps_upd [OF k4 pu, of "(h4 ! pa)\<lparr>parent := parent (h4 ! qa)\<rparr>"]
      keeps_left [OF k4 pu] keeps_right [OF k4 pu] pa(2) l4 by simp_all
  have k6: "keeps U h h6" and l6: "length h6 = length g"
    unfolding h6 using keeps_upd [OF k5 qu, of "(h5 ! qa)\<lparr>parent := Some pa\<rparr>"]
      keeps_left [OF k5 qu] keeps_right [OF k5 qu] qa(2) l5 by simp_all
  have "keeps U h g'" "length g' = length g"
    using keeps_FixHeight [OF k6 pp g'] l6 by simp_all
  then show ?thesis
    using pp p' by simp
qed

lemma BalanceNode_cases:
  assumes "BalanceNode g node = Inr (q', g')"
  shows "(q' = node \<and> g' = g) \<or>
         RotateLeft g node = Inr (q', g') \<or>
         RotateRight g node = Inr (q', g') \<or>
         (\<exists>a r h1. node = Some a \<and> a < length g \<and>
            RotateRight g (right (g ! a)) = Inr (r, h1) \<and>
            RotateLeft (h1[a := (h1 ! a)\<lparr>right := r\<rparr>]) node = Inr (q', g')) \<or>
         (\<exists>a l h1. node = Some a \<and> a < length g \<and>
            RotateLeft g (left (g ! a)) = Inr (l, h1) \<and>
            RotateRight (h1[a := (h1 ! a)\<lparr>left := l\<rparr>]) node = Inr (q', g'))"
  using assms unfolding BalanceNode_def
  by (auto simp: bind_res_Inr deref_Inr split: if_splits)

lemma keeps_BalanceNode:
  assumes k: "keeps U h g" and p: "ptr_out U node" and b: "BalanceNode g node = Inr (q', g')"
  shows "keeps U h g' \<and> ptr_out U q' \<and> length g' = length g"
proof -
  from BalanceNode_cases [OF b]
  consider (same) "q' = node" "g' = g"
    | (l) "RotateLeft g node = Inr (q', g')"
    | (r) "RotateRight g node = Inr (q', g')"
    | (rl) a r h1 where "node = Some a" "a < length g"
        "RotateRight g (right (g ! a)) = Inr (r, h1)"
        "RotateLeft (h1[a := (h1 ! a)\<lparr>right := r\<rparr>]) node = Inr (q', g')"
    | (lr) a l h1 where "node = Some a" "a < length g"
        "RotateLeft g (left (g ! a)) = Inr (l, h1)"
        "RotateRight (h1[a := (h1 ! a)\<lparr>left := l\<rparr>]) node = Inr (q', g')"
    by blast
  then show ?thesis
  proof cases
    case same
    then show ?thesis using k p by simp
  next
    case l
    then show ?thesis using keeps_RotateLeft [OF k p] by simp
  next
    case r
    then show ?thesis using keeps_RotateRight [OF k p] by simp
  next
    case rl
    have au: "a \<notin> U" using p rl(1) by (simp add: ptr_out_def)
    from keeps_RotateRight [OF k keeps_right [OF k au rl(2)] rl(3)]
    have k1: "keeps U h h1" and r: "ptr_out U r" and l1: "length h1 = length g"
      by simp_all
    have k2: "keeps U h (h1[a := (h1 ! a)\<lparr>right := r\<rparr>])"
      using keeps_upd [OF k1 au, of "(h1 ! a)\<lparr>right := r\<rparr>"] keeps_left [OF k1 au] rl(2) l1 r
      by simp
    from keeps_RotateLeft [OF k2 p rl(4)] l1 show ?thesis by simp
  next
    case lr
    have au: "a \<notin> U" using p lr(1) by (simp add: ptr_out_def)
    from keeps_RotateLeft [OF k keeps_left [OF k au lr(2)] lr(3)]
    have k1: "keeps U h h1" and l: "ptr_out U l" and l1: "length h1 = length g"
      by simp_all
    have k2: "keeps U h (h1[a := (h1 ! a)\<lparr>left := l\<rparr>])"
      using keeps_upd [OF k1 au, of "(h1 ! a)\<lparr>left := l\<rparr>"] keeps_right [OF k1 au] lr(2) l1 l
      by simp
    from keeps_RotateRight [OF k2 p lr(4)] l1 show ?thesis by simp
  qed
qed

text \<open>The last two steps of \<open>Insert_node\<close> and of \<open>Delete_node\<close>.\<close>

lemma keeps_Fix_Balance:
  assumes k: "keeps U h g" and p: "ptr_out U node"
    and b: "bind_res (FixHeight g node) (\<lambda>h3. BalanceNode h3 node) = Inr (q', g')"
  shows "keeps U h g' \<and> ptr_out U q' \<and> length g' = length g"
proof -
  from b obtain h3 where f: "FixHeight g node = Inr h3" and b': "BalanceNode h3 node = Inr (q', g')"
    by (auto simp: bind_res_Inr)
  from keeps_FixHeight [OF k p f] have k3: "keeps U h h3" and l3: "length h3 = length g"
    by simp_all
  from keeps_BalanceNode [OF k3 p b'] l3 show ?thesis by simp
qed


lemma bind_Some: "(Option.bind m f = Some y) = (\<exists>x. m = Some x \<and> f x = Some y)"
  by (cases m) auto

lemma bind_case_Inr:
  "(Option.bind m (\<lambda>r. case r of Inl e \<Rightarrow> Some (Inl e) | Inr x \<Rightarrow> F x) = Some (Inr y)) =
   (\<exists>x. m = Some (Inr x) \<and> F x = Some (Inr y))"
proof (cases m)
  case None
  then show ?thesis by simp
next
  case (Some r)
  then show ?thesis by (cases r) auto
qed

lemma keeps_fresh: "keeps U h g \<Longrightarrow> length g \<notin> U"
  by (auto simp: keeps_def sealed_def)

lemma keeps_Insert_node:
  assumes "Insert_node g par node k v = Some y"
  shows "\<forall>h U p' g'. keeps U h g \<longrightarrow> ptr_out U node \<longrightarrow> y = Inr (p', g') \<longrightarrow>
           keeps U h g' \<and> ptr_out U p' \<and> length g \<le> length g'"
  using assms
proof (induction g par node k v y rule: Insert_node.raw_induct [rotated 1, consumes 1])
  case (1 f g par node k v y)
  show ?case
  proof (intro allI impI)
    fix h U p' g'
    assume k: "keeps U h g" and p: "ptr_out U node" and y: "y = Inr (p', g')"
    show "keeps U h g' \<and> ptr_out U p' \<and> length g \<le> length g'"
    proof (cases node)
      case None
      with 1(2) y have "p' = Some (length g)" "g' = g @ [(Node k v)\<lparr>parent := par\<rparr>]"
        by simp_all
      then show ?thesis
        using keeps_app [OF k, of "(Node k v)\<lparr>parent := par\<rparr>"] keeps_fresh [OF k]
        by (simp add: Node_def ptr_out_def)
    next
      case (Some a)
      with 1(2) y have a: "a < length g"
        by (auto split: if_splits)
      have au: "a \<notin> U" using p Some by (simp add: ptr_out_def)
      let ?h1 = "if key (g ! a) = k then g[a := (g ! a)\<lparr>val := v\<rparr>] else g"
      have k1: "keeps U h ?h1" and l1: "length ?h1 = length g"
        using keeps_upd [OF k au a, of "(g ! a)\<lparr>val := v\<rparr>"] keeps_left [OF k au a]
          keeps_right [OF k au a] k by simp_all
      show ?thesis
      proof (cases "k < key (?h1 ! a)")
        case True
        with 1(2) y Some a obtain c h2 where
          rec: "f ?h1 node (left (?h1 ! a)) k v = Some (Inr (c, h2))"
          and fin: "bind_res (FixHeight (h2[a := (h2 ! a)\<lparr>left := c\<rparr>]) node)
                      (\<lambda>h3. BalanceNode h3 node) = Inr (p', g')"
          by (auto simp: Let_def bind_case_Inr)
        from 1(1) [OF rec] k1 keeps_left [OF k1 au] a l1
        have k2: "keeps U h h2" and c: "ptr_out U c" and l2: "length ?h1 \<le> length h2"
          by simp_all
        have k3: "keeps U h (h2[a := (h2 ! a)\<lparr>left := c\<rparr>])"
          using keeps_upd [OF k2 au, of "(h2 ! a)\<lparr>left := c\<rparr>"] keeps_right [OF k2 au]
            a l1 l2 c by simp
        from keeps_Fix_Balance [OF k3 p fin] l1 l2 show ?thesis by simp
      next
        case False
        with 1(2) y Some a obtain c h2 where
          rec: "f ?h1 node (right (?h1 ! a)) k v = Some (Inr (c, h2))"
          and fin: "bind_res (FixHeight (h2[a := (h2 ! a)\<lparr>right := c\<rparr>]) node)
                      (\<lambda>h3. BalanceNode h3 node) = Inr (p', g')"
          by (auto simp: Let_def bind_case_Inr)
        from 1(1) [OF rec] k1 keeps_right [OF k1 au] a l1
        have k2: "keeps U h h2" and c: "ptr_out U c" and l2: "length ?h1 \<le> length h2"
          by simp_all
        have k3: "keeps U h (h2[a := (h2 ! a)\<lparr>right := c\<rparr>])"
          using keeps_upd [OF k2 au, of "(h2 ! a)\<lparr>right := c\<rparr>"] keeps_left [OF k2 au]
            a l1 l2 c by simp
        from keeps_Fix_Balance [OF k3 p fin] l1 l2 show ?thesis by simp
      qed
    qed
  qed
qed


lemma keeps_GetMaxLeft:
  assumes "GetMaxLeft g node = Some y"
  shows "\<forall>h U c res g'. keeps U h g \<longrightarrow> ptr_out U node \<longrightarrow> y = Inr (c, res, g') \<longrightarrow>
           keeps U h g' \<and> ptr_out U c \<and> ptr_out U res \<and> length g' = length g"
  using assms
proof (induction g node y rule: GetMaxLeft.raw_induct [rotated 1, consumes 1])
  case (1 f g node y)
  show ?case
  proof (intro allI impI)
    fix h U c res g'
    assume k: "keeps U h g" and p: "ptr_out U node" and y: "y = Inr (c, res, g')"
    from 1(2) y obtain a where node: "node = Some a" and a: "a < length g"
      by (auto split: option.splits if_splits)
    have au: "a \<notin> U" using p node by (simp add: ptr_out_def)
    show "keeps U h g' \<and> ptr_out U c \<and> ptr_out U res \<and> length g' = length g"
    proof (cases "right (g ! a) = None")
      case False
      with 1(2) y node a obtain c1 h1 where
        rec: "f g (right (g ! a)) = Some (Inr (c1, res, h1))"
        and fin: "FixHeight (h1[a := (h1 ! a)\<lparr>right := c1\<rparr>])
                    (right (h1[a := (h1 ! a)\<lparr>right := c1\<rparr>] ! a)) = Inr g'"
        and c: "c = node"
        by (auto simp: Let_def bind_case_Inr bind_res_Inr)
      from 1(1) [OF rec] k keeps_right [OF k au a]
      have k1: "keeps U h h1" and c1: "ptr_out U c1" and r: "ptr_out U res"
        and l1: "length h1 = length g"
        by simp_all
      let ?h2 = "h1[a := (h1 ! a)\<lparr>right := c1\<rparr>]"
      have k2: "keeps U h ?h2" and l2: "length ?h2 = length g"
        using keeps_upd [OF k1 au, of "(h1 ! a)\<lparr>right := c1\<rparr>"] keeps_left [OF k1 au]
          a l1 c1 by simp_all
      from keeps_FixHeight [OF k2 _ fin] keeps_right [OF k2 au] a l2
      show ?thesis using c p r by simp
    next
      case True
      with 1(2) y node a obtain t where
        t: "left (g ! a) = Some t" "t < length g"
        and fin: "FixHeight (g[a := (g ! a)\<lparr>parent := None\<rparr>,
                    t := (g[a := (g ! a)\<lparr>parent := None\<rparr>] ! t)\<lparr>parent := parent (g ! a)\<rparr>])
                    node = Inr g'"
        and c: "c = left (g ! a)" and res: "res = node"
        by (auto simp: Let_def deref_Inr bind_res_Inr)
      have tu: "t \<notin> U" using keeps_left [OF k au a] t by (simp add: ptr_out_def)
      let ?h1 = "g[a := (g ! a)\<lparr>parent := None\<rparr>]"
      have k1: "keeps U h ?h1" and l1: "length ?h1 = length g"
        using keeps_upd [OF k au a, of "(g ! a)\<lparr>parent := None\<rparr>"] keeps_left [OF k au a]
          keeps_right [OF k au a] by simp_all
      let ?h2 = "?h1[t := (?h1 ! t)\<lparr>parent := parent (g ! a)\<rparr>]"
      have k2: "keeps U h ?h2" and l2: "length ?h2 = length g"
        using keeps_upd [OF k1 tu, of "(?h1 ! t)\<lparr>parent := parent (g ! a)\<rparr>"]
          keeps_left [OF k1 tu] keeps_right [OF k1 tu] t(2) by simp_all
      from keeps_FixHeight [OF k2 p fin] l2
      show ?thesis using c res p keeps_left [OF k au a] by simp
    qed
  qed
qed


lemma keeps_splice:
  assumes k: "keeps U h h2" and au: "a \<notin> U" and a: "a < length h2" and rp: "ptr_out U replace"
    and run: "deref h2 replace (\<lambda>ra.
                 let tp = parent (h2 ! a);
                     h3 = h2[a := (h2 ! a)\<lparr>parent := None\<rparr>];
                     h4 = h3[ra := (h3 ! ra)\<lparr>parent := tp\<rparr>];
                     tl = left (h4 ! a);
                     h5 = h4[a := (h4 ! a)\<lparr>left := None\<rparr>];
                     h6 = h5[ra := (h5 ! ra)\<lparr>left := tl\<rparr>];
                     tr = right (h6 ! a);
                     h7 = h6[a := (h6 ! a)\<lparr>right := None\<rparr>];
                     h8 = h7[ra := (h7 ! ra)\<lparr>right := tr\<rparr>]
                 in
                 bind_res (set_parent_of h8 (left (h8 ! ra)) replace) (\<lambda>h9.
                 bind_res (set_parent_of h9 (right (h9 ! ra)) replace) (\<lambda>h10.
                 bind_res (FixHeight h10 replace) (\<lambda>h11.
                 bind_res (FixHeight h11 replace) (\<lambda>h12.
                   BalanceNode h12 replace))))) = Inr (p', g')"
  shows "keeps U h g' \<and> ptr_out U p' \<and> length g' = length h2"
proof -
  from run obtain ra where ra: "replace = Some ra" "ra < length h2"
    by (auto simp: deref_Inr)
  have ru: "ra \<notin> U" using rp ra by (simp add: ptr_out_def)
  define h3 where "h3 = h2[a := (h2 ! a)\<lparr>parent := None\<rparr>]"
  define h4 where "h4 = h3[ra := (h3 ! ra)\<lparr>parent := parent (h2 ! a)\<rparr>]"
  define h5 where "h5 = h4[a := (h4 ! a)\<lparr>left := None\<rparr>]"
  define h6 where "h6 = h5[ra := (h5 ! ra)\<lparr>left := left (h4 ! a)\<rparr>]"
  define h7 where "h7 = h6[a := (h6 ! a)\<lparr>right := None\<rparr>]"
  define h8 where "h8 = h7[ra := (h7 ! ra)\<lparr>right := right (h6 ! a)\<rparr>]"
  from run ra obtain h9 h10 h11 h12 where
    s9: "set_parent_of h8 (left (h8 ! ra)) replace = Inr h9"
    and s10: "set_parent_of h9 (right (h9 ! ra)) replace = Inr h10"
    and f11: "FixHeight h10 replace = Inr h11"
    and f12: "FixHeight h11 replace = Inr h12"
    and b: "BalanceNode h12 replace = Inr (p', g')"
    unfolding deref_Inr Let_def h8_def h7_def h6_def h5_def h4_def h3_def bind_res_Inr
    by auto
  have k3: "keeps U h h3" and l3: "length h3 = length h2"
    unfolding h3_def
    using keeps_upd [OF k au a, of "(h2 ! a)\<lparr>parent := None\<rparr>"] keeps_left [OF k au a]
      keeps_right [OF k au a] by simp_all
  have k4: "keeps U h h4" and l4: "length h4 = length h2"
    unfolding h4_def
    using keeps_upd [OF k3 ru, of "(h3 ! ra)\<lparr>parent := parent (h2 ! a)\<rparr>"]
      keeps_left [OF k3 ru] keeps_right [OF k3 ru] ra(2) l3 by simp_all
  have k5: "keeps U h h5" and l5: "length h5 = length h2"
    unfolding h5_def
    using keeps_upd [OF k4 au, of "(h4 ! a)\<lparr>left := None\<rparr>"]
      keeps_right [OF k4 au] a l4 by (simp_all add: ptr_out_def)
  have k6: "keeps U h h6" and l6: "length h6 = length h2"
    unfolding h6_def
    using keeps_upd [OF k5 ru, of "(h5 ! ra)\<lparr>left := left (h4 ! a)\<rparr>"]
      keeps_right [OF k5 ru] keeps_left [OF k4 au] ra(2) a l4 l5 by simp_all
  have k7: "keeps U h h7" and l7: "length h7 = length h2"
    unfolding h7_def
    using keeps_upd [OF k6 au, of "(h6 ! a)\<lparr>right := None\<rparr>"]
      keeps_left [OF k6 au] a l6 by (simp_all add: ptr_out_def)
  have k8: "keeps U h h8" and l8: "length h8 = length h2"
    unfolding h8_def
    using keeps_upd [OF k7 ru, of "(h7 ! ra)\<lparr>right := right (h6 ! a)\<rparr>"]
      keeps_left [OF k7 ru] keeps_right [OF k6 au] ra(2) a l6 l7 by simp_all
  from keeps_set_parent_of [OF k8 _ s9] keeps_left [OF k8 ru] ra(2) l8
  have k9: "keeps U h h9" and l9: "length h9 = length h2"
    by simp_all
  from keeps_set_parent_of [OF k9 _ s10] keeps_right [OF k9 ru] ra(2) l9
  have k10: "keeps U h h10" and l10: "length h10 = length h2"
    by simp_all
  from keeps_FixHeight [OF k10 rp f11] l10
  have k11: "keeps U h h11" and l11: "length h11 = length h2"
    by simp_all
  from keeps_FixHeight [OF k11 rp f12] l11
  have k12: "keeps U h h12" and l12: "length h12 = length h2"
    by simp_all
  from keeps_BalanceNode [OF k12 rp b] l12 show ?thesis
    by simp
qed

lemma if_err: "(if c then Some (Inl e) else X) = Some (Inr z) \<Longrightarrow> \<not> c \<and> X = Some (Inr z)"
  by (auto split: if_splits)

lemma bind_case3_Inr:
  assumes "Option.bind m (\<lambda>r. case r of Inl e \<Rightarrow> Some (Inl e)
                                 | Inr (c, res, h1) \<Rightarrow> Some (F c res h1)) = Some (Inr y)"
  shows "\<exists>c res h1. m = Some (Inr (c, res, h1)) \<and> F c res h1 = Inr y"
  using assms by (auto simp: bind_case_Inr)

lemma bind_case2_Inr:
  assumes "Option.bind m (\<lambda>r. case r of Inl e \<Rightarrow> Some (Inl e)
                                 | Inr (c, h1) \<Rightarrow> Some (F c h1)) = Some (Inr y)"
  shows "\<exists>c h1. m = Some (Inr (c, h1)) \<and> F c h1 = Inr y"
  using assms by (auto simp: bind_case_Inr)

lemma if_T: "c \<Longrightarrow> (if c then X else Y) = z \<Longrightarrow> X = z" by simp
lemma if_F: "\<not> c \<Longrightarrow> (if c then X else Y) = z \<Longrightarrow> Y = z" by simp

lemma keeps_Delete_node:
  assumes "Delete_node g rt k = Some y"
  shows "\<forall>h U p' g'. keeps U h g \<longrightarrow> ptr_out U rt \<longrightarrow> y = Inr (p', g') \<longrightarrow>
           keeps U h g' \<and> ptr_out U p' \<and> length g' = length g"
  using assms
proof (induction g rt k y rule: Delete_node.raw_induct [rotated 1, consumes 1])
  case (1 f g rt k y)
  show ?case
  proof (intro allI impI)
    fix h U p' g'
    assume k: "keeps U h g" and p: "ptr_out U rt" and y: "y = Inr (p', g')"
    show "keeps U h g' \<and> ptr_out U p' \<and> length g' = length g"
    proof (cases rt)
      case None
      with 1(2) y k show ?thesis by (simp add: ptr_out_def)
    next
      case (Some a)
      note b0 = 1(2) [unfolded Some option.case y]
      note b1 = if_err [OF b0]
      from b1 have a: "a < length g" by blast
      note b2 = conjunct2 [OF b1]
      have au: "a \<notin> U" using p Some by (simp add: ptr_out_def)
      consider (splice) "key (g ! a) = k" "left (g ! a) \<noteq> None"
        | (child) "key (g ! a) = k" "left (g ! a) = None"
        | (right) "key (g ! a) \<noteq> k" "k < key (g ! a)"
        | (left) "key (g ! a) \<noteq> k" "\<not> k < key (g ! a)"
        by blast
      then show ?thesis
      proof cases
        case splice
        note b3 = if_T [OF splice(2) if_T [OF splice(1) b2]]
        from bind_case3_Inr [OF b3] obtain c replace h1 where
          gm: "GetMaxLeft g (Some a) = Some (Inr (c, replace, h1))"
          and fin: "(let h2 = h1[a := (h1 ! a)\<lparr>left := c\<rparr>] in
               deref h2 replace (\<lambda>ra.
                 let tp = parent (h2 ! a);
                     h3 = h2[a := (h2 ! a)\<lparr>parent := None\<rparr>];
                     h4 = h3[ra := (h3 ! ra)\<lparr>parent := tp\<rparr>];
                     tl = left (h4 ! a);
                     h5 = h4[a := (h4 ! a)\<lparr>left := None\<rparr>];
                     h6 = h5[ra := (h5 ! ra)\<lparr>left := tl\<rparr>];
                     tr = right (h6 ! a);
                     h7 = h6[a := (h6 ! a)\<lparr>right := None\<rparr>];
                     h8 = h7[ra := (h7 ! ra)\<lparr>right := tr\<rparr>]
                 in
                 bind_res (set_parent_of h8 (left (h8 ! ra)) replace) (\<lambda>h9.
                 bind_res (set_parent_of h9 (right (h9 ! ra)) replace) (\<lambda>h10.
                 bind_res (FixHeight h10 replace) (\<lambda>h11.
                 bind_res (FixHeight h11 replace) (\<lambda>h12.
                   BalanceNode h12 replace)))))) = Inr (p', g')"
          by blast
        from keeps_GetMaxLeft [OF gm] k p Some
        have k1: "keeps U h h1" and c: "ptr_out U c" and rp: "ptr_out U replace"
          and l1: "length h1 = length g"
          by simp_all
        let ?h2 = "h1[a := (h1 ! a)\<lparr>left := c\<rparr>]"
        have k2: "keeps U h ?h2" and l2: "length ?h2 = length g"
          using keeps_upd [OF k1 au, of "(h1 ! a)\<lparr>left := c\<rparr>"] keeps_right [OF k1 au]
            a l1 c by simp_all
        have a2: "a < length ?h2" using a l2 by simp
        from keeps_splice [OF k2 au a2 rp fin [unfolded Let_def [of ?h2]]] l2 show ?thesis
          by simp
      next
        case child
        have nl: "\<not> left (g ! a) \<noteq> None" using child(2) by simp
        note b3 = if_F [OF nl if_T [OF child(1) b2]]
        from b3 obtain ra h3 where
          ra: "right (g ! a) = Some ra" "ra < length g"
          and f: "FixHeight (g[a := (g ! a)\<lparr>right := None\<rparr>,
                    ra := (g[a := (g ! a)\<lparr>right := None\<rparr>] ! ra)
                            \<lparr>parent := parent (g[a := (g ! a)\<lparr>right := None\<rparr>] ! a)\<rparr>])
                    (right (g ! a)) = Inr h3"
          and b: "BalanceNode h3 (right (g ! a)) = Inr (p', g')"
          by (auto simp: Let_def deref_Inr bind_res_Inr)
        have rp: "ptr_out U (right (g ! a))" using keeps_right [OF k au a] .
        have ru: "ra \<notin> U" using rp ra by (simp add: ptr_out_def)
        let ?h1 = "g[a := (g ! a)\<lparr>right := None\<rparr>]"
        have k1: "keeps U h ?h1" and l1: "length ?h1 = length g"
          using keeps_upd [OF k au a, of "(g ! a)\<lparr>right := None\<rparr>"] keeps_left [OF k au a]
          by (simp_all add: ptr_out_def)
        let ?h2 = "?h1[ra := (?h1 ! ra)\<lparr>parent := parent (?h1 ! a)\<rparr>]"
        have k2: "keeps U h ?h2" and l2: "length ?h2 = length g"
          using keeps_upd [OF k1 ru, of "(?h1 ! ra)\<lparr>parent := parent (?h1 ! a)\<rparr>"]
            keeps_left [OF k1 ru] keeps_right [OF k1 ru] ra(2) by simp_all
        from keeps_FixHeight [OF k2 rp f] l2
        have k3: "keeps U h h3" and l3: "length h3 = length g"
          by simp_all
        from keeps_BalanceNode [OF k3 rp b] l3 show ?thesis by simp
      next
        case right
        note b3 = if_T [OF right(2) if_F [OF right(1) b2]]
        from bind_case2_Inr [OF b3] obtain c h1 where
          rec: "f g (right (g ! a)) k = Some (Inr (c, h1))"
          and fin: "bind_res (FixHeight (h1[a := (h1 ! a)\<lparr>right := c\<rparr>]) rt)
                      (\<lambda>h2. BalanceNode h2 rt) = Inr (p', g')"
          unfolding Some by blast
        from 1(1) [OF rec] k keeps_right [OF k au a]
        have k1: "keeps U h h1" and c: "ptr_out U c" and l1: "length h1 = length g"
          by simp_all
        have k2: "keeps U h (h1[a := (h1 ! a)\<lparr>right := c\<rparr>])"
          using keeps_upd [OF k1 au, of "(h1 ! a)\<lparr>right := c\<rparr>"] keeps_left [OF k1 au]
            a l1 c by simp
        from keeps_Fix_Balance [OF k2 p fin] l1 show ?thesis by simp
      next
        case left
        note b3 = if_F [OF left(2) if_F [OF left(1) b2]]
        from bind_case2_Inr [OF b3] obtain c h1 where
          rec: "f g (left (g ! a)) k = Some (Inr (c, h1))"
          and fin: "bind_res (FixHeight (h1[a := (h1 ! a)\<lparr>left := c\<rparr>]) rt)
                      (\<lambda>h2. BalanceNode h2 rt) = Inr (p', g')"
          unfolding Some by blast
        from 1(1) [OF rec] k keeps_left [OF k au a]
        have k1: "keeps U h h1" and c: "ptr_out U c" and l1: "length h1 = length g"
          by simp_all
        have k2: "keeps U h (h1[a := (h1 ! a)\<lparr>left := c\<rparr>])"
          using keeps_upd [OF k1 au, of "(h1 ! a)\<lparr>left := c\<rparr>"] keeps_right [OF k1 au]
            a l1 c by simp
        from keeps_Fix_Balance [OF k2 p fin] l1 show ?thesis by simp
      qed
    qed
  qed
qed

lemma map_sum_Inr: "(map_sum f g a = Inr z) = (\<exists>x. a = Inr x \<and> g x = z)"
  by (cases a) auto

lemma keeps_run_calls:
  "run_calls g m cs = Some (Inr (m', g')) \<Longrightarrow> keeps U h g \<Longrightarrow> ptr_out U (root m) \<Longrightarrow>
   keeps U h g' \<and> ptr_out U (root m') \<and> length g \<le> length g'"
proof (induction cs arbitrary: g m)
  case Nil
  then show ?case by simp
next
  case (Cons c cs)
  from Cons.prems(1) obtain m1 g1 where
    step: "(case c of InsertCall k v \<Rightarrow> Insert g m k v | DeleteCall k \<Rightarrow> Delete g m k)
             = Some (Inr (m1, g1))"
    and rest: "run_calls g1 m1 cs = Some (Inr (m', g'))"
    by (auto simp: bind_case_Inr)
  have "keeps U h g1 \<and> ptr_out U (root m1) \<and> length g \<le> length g1"
  proof (cases c)
    case (InsertCall k v)
    with step obtain r where r: "Insert_node g None (root m) k v = Some (Inr (r, g1))"
      and m1: "m1 = m\<lparr>root := r\<rparr>"
      by (auto simp: Insert_def map_sum_Inr)
    from keeps_Insert_node [OF r] Cons.prems(2,3) m1 show ?thesis by simp
  next
    case (DeleteCall k)
    with step obtain r where r: "Delete_node g (root m) k = Some (Inr (r, g1))"
      and m1: "m1 = m\<lparr>root := r\<rparr>"
      by (auto simp: Delete_def map_sum_Inr)
    from keeps_Delete_node [OF r] Cons.prems(2,3) m1 show ?thesis by simp
  qed
  with Cons.IH [OF rest] show ?case by auto
qed

lemma is_tree_closed:
  "is_tree h p t \<Longrightarrow> a \<in> set (inorder t) \<Longrightarrow>
   (\<forall>b. left (h ! a) = Some b \<longrightarrow> b \<in> set (inorder t)) \<and>
   (\<forall>b. right (h ! a) = Some b \<longrightarrow> b \<in> set (inorder t))"
proof (induction t arbitrary: p)
  case Tip
  then show ?case by simp
next
  case (Br l x r)
  from Br.prems(1) have l: "is_tree h (left (h ! x)) l" and r: "is_tree h (right (h ! x)) r"
    by simp_all
  from Br.prems(2) consider "a \<in> set (inorder l)" | "a = x" | "a \<in> set (inorder r)"
    by auto
  then show ?case
  proof cases
    case 1
    with Br.IH(1) [OF l] show ?thesis by auto
  next
    case 2
    with is_tree_root [OF l] is_tree_root [OF r] show ?thesis by auto
  next
    case 3
    with Br.IH(2) [OF r] show ?thesis by auto
  qed
qed

lemma tree_frame:
  assumes t: "is_tree h (root m) t"
    and run: "run_calls h m cs = Some (Inr (m', h'))"
  shows "length h \<le> length h' \<and> (\<forall>a<length h. a \<notin> set (inorder t) \<longrightarrow> h' ! a = h ! a)"
proof -
  let ?U = "{a. a < length h \<and> a \<notin> set (inorder t)}"
  have out: "ptr_out ?U q" if "\<And>b. q = Some b \<Longrightarrow> b \<in> set (inorder t)" for q
    using that by (cases q) (simp_all add: ptr_out_def)
  have "ptr_out ?U (left (h ! a)) \<and> ptr_out ?U (right (h ! a))"
    if "a < length h" "a \<notin> ?U" for a
  proof -
    from that have "a \<in> set (inorder t)" by simp
    from is_tree_closed [OF t this] show ?thesis
      by (simp add: out)
  qed
  then have "sealed h ?U"
    unfolding sealed_def by blast
  then have k: "keeps ?U h h"
    by (rule keeps_refl)
  have p: "ptr_out ?U (root m)"
    using is_tree_root [OF t] by (rule out)
  from keeps_run_calls [OF run k p] show ?thesis
    by (simp add: keeps_def)
qed

text \<open>
  C9, the copy constructor. For a map whose nodes form a tree, the copy constructor
  returns; it leaves every cell of the store as it was and adds new cells, and the new
  map's nodes are exactly the added cells, each once. They form a tree of the same shape
  with the same keys, values and stored heights, the parent link of its root is null and
  the parent link of every other node is the node above it. Whenever a sequence of
  \<open>Insert\<close> and \<open>Delete\<close> calls on the copy returns, every cell that existed before the copy
  was made is unchanged; whenever such a sequence on the original returns, every node of
  the copy is unchanged.
\<close>

theorem copy_constructor_deep_copy:
  assumes "is_tree h (root m) t"
  shows "\<exists>m' h' t'. AVLMap_copy h m = Some (Inr (m', h')) \<and>
           take (length h) h' = h \<and>
           is_tree h' (root m') t' \<and> distinct (inorder t') \<and>
           set (inorder t') = {length h ..< length h'} \<and>
           copy_of h t h' t' \<and> parents_ok h' None t' \<and>
           (\<forall>cs m2 h2. run_calls h' m' cs = Some (Inr (m2, h2)) \<longrightarrow>
              take (length h) h2 = h) \<and>
           (\<forall>cs m2 h2. run_calls h' m cs = Some (Inr (m2, h2)) \<longrightarrow>
              (\<forall>a \<in> set (inorder t'). h2 ! a = h' ! a))"
proof -
  from MakeCopy_deep [OF assms]
  obtain p' h' t' where run: "MakeCopy h (root m) = Some (Inr (p', h'))"
    and c: "copied h t p' h' t'"
    by blast
  let ?m' = "\<lparr>root = p'\<rparr>"
  from c have e: "ext h h'" and t': "is_tree h' (root ?m') t'"
    and s: "set (inorder t') = {length h ..< length h'}"
    by (simp_all add: copied_def)
  have r: "AVLMap_copy h m = Some (Inr (?m', h'))"
    by (simp add: AVLMap_copy_def run)
  have tk: "take (length h) h' = h"
    using e by (rule ext_take)
  have i1: "take (length h) h2 = h" if "run_calls h' ?m' cs = Some (Inr (m2, h2))" for cs m2 h2
  proof -
    from tree_frame [OF t' that] s
    have "length h' \<le> length h2" and "\<forall>a<length h. h2 ! a = h' ! a"
      using e by (auto simp: ext_def)
    then have "ext h h2"
      using e by (auto simp: ext_def)
    then show ?thesis by (rule ext_take)
  qed
  have i2: "\<forall>a \<in> set (inorder t'). h2 ! a = h' ! a"
    if "run_calls h' m cs = Some (Inr (m2, h2))" for cs m2 h2
  proof
    fix a assume a: "a \<in> set (inorder t')"
    then have "a < length h'" "length h \<le> a" using s by simp_all
    moreover have "a \<notin> set (inorder t)"
      using is_tree_bound [OF assms, of a] \<open>length h \<le> a\<close> by auto
    ultimately show "h2 ! a = h' ! a"
      using tree_frame [OF is_tree_ext [OF assms e] that] by simp
  qed
  from c have "distinct (inorder t')" "copy_of h t h' t'" "parents_ok h' None t'"
    by (simp_all add: copied_def)
  with r tk t' s i1 i2 show ?thesis
    by (intro exI [of _ ?m'] exI [of _ h'] exI [of _ t'] conjI allI impI) simp_all
qed

theorem copy_constructor_deep_copy_witness:
  "(let h = [\<lparr>key = 2::int, val = 20::int, left = Some 1, right = None, parent = None, hgt = 2\<rparr>,
             \<lparr>key = 1, val = 10, left = None, right = None, parent = Some 0, hgt = 1\<rparr>];
        m = \<lparr>root = Some 0\<rparr>;
        t = Br (Br Tip 1 Tip) 0 Tip;
        g = h @ [\<lparr>key = 2, val = 20, left = Some 3, right = None, parent = None, hgt = 2\<rparr>,
                 \<lparr>key = 1, val = 10, left = None, right = None, parent = Some 2, hgt = 1\<rparr>]
    in is_tree h (root m) t \<and>
       (\<exists>m' h' t'. AVLMap_copy h m = Some (Inr (m', h')) \<and>
           take (length h) h' = h \<and>
           is_tree h' (root m') t' \<and> distinct (inorder t') \<and>
           set (inorder t') = {length h ..< length h'} \<and>
           copy_of h t h' t' \<and> parents_ok h' None t' \<and>
           (\<forall>cs m2 h2. run_calls h' m' cs = Some (Inr (m2, h2)) \<longrightarrow>
              take (length h) h2 = h) \<and>
           (\<forall>cs m2 h2. run_calls h' m cs = Some (Inr (m2, h2)) \<longrightarrow>
              (\<forall>a \<in> set (inorder t'). h2 ! a = h' ! a))) \<and>
       AVLMap_copy h m = Some (Inr (\<lparr>root = Some 2\<rparr>, g)) \<and>
       map_option (map_sum id (\<lambda>(m2, h2). take 2 h2))
         (run_calls g \<lparr>root = Some 2\<rparr> [InsertCall 3 30, InsertCall 0 0])
         = Some (Inr h) \<and>
       map_option (map_sum id (\<lambda>(m2, h2). drop 2 (take 4 h2)))
         (run_calls g m [InsertCall 3 30, InsertCall 0 0])
         = Some (Inr (drop 2 g)))"
proof -
  let ?h = "[\<lparr>key = 2::int, val = 20::int, left = Some 1, right = None, parent = None, hgt = 2\<rparr>,
             \<lparr>key = 1, val = 10, left = None, right = None, parent = Some 0, hgt = 1\<rparr>]"
  let ?g = "?h @ [\<lparr>key = 2, val = 20, left = Some 3, right = None, parent = None, hgt = 2\<rparr>,
                 \<lparr>key = 1, val = 10, left = None, right = None, parent = Some 2, hgt = 1\<rparr>]"
  have t: "is_tree ?h (root \<lparr>root = Some 0\<rparr>) (Br (Br Tip 1 Tip) 0 Tip)"
    by simp
  have e: "AVLMap_copy ?h \<lparr>root = Some 0\<rparr> = Some (Inr (\<lparr>root = Some 2\<rparr>, ?g))"
    by code_simp
  have r1: "map_option (map_sum id (\<lambda>(m2, h2). take 2 h2))
              (run_calls ?g \<lparr>root = Some 2\<rparr> [InsertCall 3 30, InsertCall 0 0])
            = Some (Inr ?h)"
    by code_simp
  have r2: "map_option (map_sum id (\<lambda>(m2, h2). drop 2 (take 4 h2)))
              (run_calls ?g \<lparr>root = Some 0\<rparr> [InsertCall 3 30, InsertCall 0 0])
            = Some (Inr (drop 2 ?g))"
    by code_simp
  from copy_constructor_deep_copy [OF t] t e r1 r2 show ?thesis
    unfolding Let_def by blast
qed

section \<open>Deletion on concrete maps\<close>

text \<open>
  C1. The map built by inserting 2, 1, 3 is the tree with 2 at the root, 1 on the left
  and 3 on the right; it is in search-tree order and its stored heights are right.
  \<open>Delete(1)\<close> descends to the right of 2 (the comparison \<^verbatim>\<open>key < root->key\<close> selects
  \<^verbatim>\<open>root->right\<close>), does not find the key, and returns with the store unchanged: key 1
  is still present afterwards.
\<close>

theorem Delete_present_key_remains:
  "(let h = [\<lparr>key = 2::int, val = 20::int, left = Some 1, right = Some 2, parent = None, hgt = 2\<rparr>,
             \<lparr>key = 1, val = 10, left = None, right = None, parent = Some 0, hgt = 1\<rparr>,
             \<lparr>key = 3, val = 30, left = None, right = None, parent = Some 0, hgt = 1\<rparr>];
        m = \<lparr>root = Some 0\<rparr>
    in run_calls [] AVLMap_new [InsertCall 2 20, InsertCall 1 10, InsertCall 3 30]
         = Some (Inr (m, h)) \<and>
       is_tree h (root m) (Br (Br Tip 1 Tip) 0 (Br Tip 2 Tip)) \<and>
       bst h (Br (Br Tip 1 Tip) 0 (Br Tip 2 Tip)) \<and>
       Contains h m 1 = Some (Inr True) \<and>
       Delete h m 1 = Some (Inr (m, h)))"
  by code_simp

text \<open>
  C3. In the map built by inserting 2, 1, 4, 3 the root (key 2) has the left child 1 and
  the right child 4, whose left child is 3. \<open>Delete(2)\<close> calls \<^verbatim>\<open>GetMaxLeft(root, replace)\<close>
  on the node to delete itself, not on its left child: the walk along right children
  ends at key 4, the maximum of the whole tree, and that node becomes \<^verbatim>\<open>replace\<close>. The
  in-order predecessor of 2 is the node of key 1. After the call key 2 is still found,
  and the keys 1 and 3 are not found any more.
\<close>

theorem Delete_splices_maximum_of_whole_subtree:
  "(let h = [\<lparr>key = 2::int, val = 20::int, left = Some 1, right = Some 2, parent = None, hgt = 3\<rparr>,
             \<lparr>key = 1, val = 10, left = None, right = None, parent = Some 0, hgt = 1\<rparr>,
             \<lparr>key = 4, val = 40, left = Some 3, right = None, parent = Some 0, hgt = 2\<rparr>,
             \<lparr>key = 3, val = 30, left = None, right = None, parent = Some 2, hgt = 1\<rparr>];
        m = \<lparr>root = Some 0\<rparr>;
        h' = [\<lparr>key = 2::int, val = 20::int, left = None, right = Some 2, parent = None, hgt = 5\<rparr>,
              \<lparr>key = 1, val = 10, left = None, right = None, parent = Some 0, hgt = 1\<rparr>,
              \<lparr>key = 4, val = 40, left = None, right = Some 3, parent = Some 0, hgt = 4\<rparr>,
              \<lparr>key = 3, val = 30, left = None, right = None, parent = Some 2, hgt = 1\<rparr>]
    in run_calls [] AVLMap_new [InsertCall 2 20, InsertCall 1 10, InsertCall 4 40, InsertCall 3 30]
         = Some (Inr (m, h)) \<and>
       map_option (map_sum id (\<lambda>(c, replace, h1). replace)) (GetMaxLeft h (root m))
         = Some (Inr (Some 2)) \<and>
       Delete h m 2 = Some (Inr (m, h')) \<and>
       Contains h' m 2 = Some (Inr True) \<and>
       Contains h' m 1 = Some (Inr False) \<and>
       Contains h' m 3 = Some (Inr False))"
  by code_simp

text \<open>
  C5. The map holding the single key 1 is a leaf. \<open>Delete(1)\<close> takes the branch for a node
  without left child, moves the null right child into \<^verbatim>\<open>result\<close> and executes
  \<^verbatim>\<open>result->parent = root->parent\<close>: a member access through a null pointer.
\<close>

theorem Delete_leaf_dereferences_null:
  "run_calls [] AVLMap_new [InsertCall (1::int) (10::int)]
     = Some (Inr (\<lparr>root = Some 0\<rparr>,
          [\<lparr>key = 1, val = 10, left = None, right = None, parent = None, hgt = 1\<rparr>])) \<and>
   Delete [\<lparr>key = 1::int, val = 10::int, left = None, right = None, parent = None, hgt = 1\<rparr>]
     \<lparr>root = Some 0\<rparr> 1 = Some (Inl NullDeref)"
  by code_simp

section \<open>Insertion on concrete maps\<close>

text \<open>
  C2. Inserting key 1 with value 10 and then key 1 with value 20 into the empty map
  overwrites the value of the first node and then goes on into its right subtree, where it
  creates a second node for key 1.
\<close>

theorem Insert_same_key_twice_two_nodes:
  "(let h = [\<lparr>key = 1::int, val = 20::int, left = None, right = Some 1, parent = None, hgt = 2\<rparr>,
             \<lparr>key = 1, val = 20, left = None, right = None, parent = Some 0, hgt = 1\<rparr>];
        m = \<lparr>root = Some 0\<rparr>
    in run_calls [] AVLMap_new [InsertCall 1 10, InsertCall 1 20] = Some (Inr (m, h)) \<and>
       is_tree h (root m) (Br Tip 0 (Br Tip 1 Tip)) \<and>
       keys_in h (Br Tip 0 (Br Tip 1 Tip)) = [1, 1])"
  by code_simp

text \<open>
  C4. After inserting 3, 2, 1 the root is rotated right; \<^verbatim>\<open>RotateRight\<close> recomputes the
  height of the node that moves up twice and never that of the node that moves down, so
  the node of key 3, now a leaf, keeps the stored height 3 and the balance factor that
  \<^verbatim>\<open>BFactor\<close> computes for the root is 2. After inserting 3, 2, 1, 0, -1, -2 the left
  subtree of the root has three levels and its right subtree has one, while \<^verbatim>\<open>BFactor\<close>
  of the root is -1.
\<close>

theorem Insert_sequence_unbalanced:
  "(let h = [\<lparr>key = 3::int, val = 30::int, left = None, right = None, parent = Some 1, hgt = 3\<rparr>,
             \<lparr>key = 2, val = 20, left = Some 2, right = Some 0, parent = None, hgt = 4\<rparr>,
             \<lparr>key = 1, val = 10, left = None, right = None, parent = Some 1, hgt = 1\<rparr>];
        m = \<lparr>root = Some 1\<rparr>
    in run_calls [] AVLMap_new [InsertCall 3 30, InsertCall 2 20, InsertCall 1 10]
         = Some (Inr (m, h)) \<and>
       BFactor h (root m) = Inr 2) \<and>
   (let h = [\<lparr>key = 3::int, val = 30::int, left = None, right = None, parent = Some 1, hgt = 3\<rparr>,
             \<lparr>key = 2, val = 20, left = Some 3, right = Some 0, parent = None, hgt = 5\<rparr>,
             \<lparr>key = 1, val = 10, left = None, right = None, parent = Some 3, hgt = 3\<rparr>,
             \<lparr>key = 0, val = 0, left = Some 4, right = Some 2, parent = Some 1, hgt = 4\<rparr>,
             \<lparr>key = - 1, val = - 10, left = Some 5, right = None, parent = Some 3, hgt = 2\<rparr>,
             \<lparr>key = - 2, val = - 20, left = None, right = None, parent = Some 4, hgt = 1\<rparr>];
        m = \<lparr>root = Some 1\<rparr>;
        l = Br (Br (Br Tip 5 Tip) 4 Tip) 3 (Br Tip 2 Tip);
        r = Br Tip 0 Tip
    in run_calls [] AVLMap_new
         [InsertCall 3 30, InsertCall 2 20, InsertCall 1 10, InsertCall 0 0,
          InsertCall (- 1) (- 10), InsertCall (- 2) (- 20)]
         = Some (Inr (m, h)) \<and>
       is_tree h (root m) (Br l 1 r) \<and>
       levels l = 3 \<and> levels r = 1 \<and>
       BFactor h (root m) = Inr (- 1))"
  by code_simp

section \<open>Traversal on concrete maps\<close>

text \<open>
  C6. On the map built by inserting key 1 twice, the forward traversal from \<open>begin()\<close> to
  \<open>end()\<close> yields key 1 two times.
\<close>

theorem forward_traversal_repeats_key:
  "(let h = [\<lparr>key = 1::int, val = 20::int, left = None, right = Some 1, parent = None, hgt = 2\<rparr>,
             \<lparr>key = 1, val = 20, left = None, right = None, parent = Some 0, hgt = 1\<rparr>];
        m = \<lparr>root = Some 0\<rparr>
    in run_calls [] AVLMap_new [InsertCall 1 10, InsertCall 1 20] = Some (Inr (m, h)) \<and>
       forward_keys h m = Some (Inr [1, 1]))"
  by code_simp

text \<open>
  C7. On the map built by inserting 1, 2, 3 (root 2 at address 1, with 1 at address 0 on
  the left and 3 at address 2 on the right), \<^verbatim>\<open>operator--\<close> applied to \<open>end()\<close> first moves
  to the rightmost node and then, in the same call, one step further back: the iterator
  ends on the root, key 2, not on the maximum 3. The reverse traversal from \<open>rbegin()\<close>
  runs on copies of the iterators, which have lost \<^verbatim>\<open>tree_root_\<close>, and its first
  dereference goes through a null pointer.
\<close>

theorem retreat_from_end_skips_maximum:
  "(let h = [\<lparr>key = 1::int, val = 10::int, left = None, right = None, parent = Some 1, hgt = 1\<rparr>,
             \<lparr>key = 2, val = 20, left = Some 0, right = Some 2, parent = None, hgt = 2\<rparr>,
             \<lparr>key = 3, val = 30, left = None, right = None, parent = Some 1, hgt = 1\<rparr>];
        m = \<lparr>root = Some 1\<rparr>
    in run_calls [] AVLMap_new [InsertCall 1 10, InsertCall 2 20, InsertCall 3 30]
         = Some (Inr (m, h)) \<and>
       GetRight h (root m) = Some (Inr (Some 2)) \<and>
       op_dec h (end_it m) = Some (Inr \<lparr>it_node = Some 1, it_tree_root = Some 1\<rparr>) \<and>
       reverse_keys h m = Some (Inl NullDeref))"
  by code_simp

end
